theory Spec2Isabelle
  imports Main "HOL-Library.Word"
begin

unbundle bit_operations_syntax

section \<open>Physical page allocator (kernel/kalloc.c)\<close>

text \<open>
  Physical memory is a byte array indexed by 64-bit addresses. A free page stores
  the link of its free list (\<^verbatim>\<open>struct run { struct run *next; }\<close>) in its own first
  eight bytes, so the link and the page content alias; the model keeps them in
  the same byte memory. Pointers are stored little-endian (RISC-V).

  The headers \<^verbatim>\<open>param.h\<close>, \<^verbatim>\<open>memlayout.h\<close> and \<^verbatim>\<open>riscv.h\<close> are not part of the
  sources, so \<^verbatim>\<open>NCPU\<close>, \<^verbatim>\<open>PHYSTOP\<close> and the linker symbol \<^verbatim>\<open>end\<close> are parameters of
  the operations; \<^verbatim>\<open>PGSIZE\<close> is 4096, as the header comment of kalloc.c says
  ("Allocates whole 4096-byte pages"). The identity of the calling CPU
  (\<^verbatim>\<open>cpuid()\<close>) is the parameter \<open>current_id\<close>. Spinlocks protect the critical
  sections that the model executes atomically.
\<close>

type_synonym addr = "64 word"
type_synonym memory = "addr \<Rightarrow> 8 word"

definition PGSIZE :: "nat" where
  "PGSIZE = 4096"

record kmem =
  freelist :: "nat \<Rightarrow> addr"
  mem :: "memory"

text \<open>\<^verbatim>\<open>memset(dst, c, n)\<close>: the \<open>n\<close> bytes from \<open>dst\<close> on become \<open>c\<close>.\<close>

definition memset :: "memory \<Rightarrow> addr \<Rightarrow> 8 word \<Rightarrow> nat \<Rightarrow> memory" where
  "memset m dst c n = (\<lambda>a. if unat (a - dst) < n then c else m a)"

text \<open>Reading and writing the pointer-sized field \<^verbatim>\<open>r->next\<close> at address \<open>r\<close>.\<close>

definition store64 :: "memory \<Rightarrow> addr \<Rightarrow> addr \<Rightarrow> memory" where
  "store64 m a v =
     (\<lambda>x. if unat (x - a) < 8 then ucast (drop_bit (8 * unat (x - a)) v) else m x)"

definition load64 :: "memory \<Rightarrow> addr \<Rightarrow> addr" where
  "load64 m a =
     ucast (m a) OR push_bit 8 (ucast (m (a + 1))) OR push_bit 16 (ucast (m (a + 2)))
     OR push_bit 24 (ucast (m (a + 3))) OR push_bit 32 (ucast (m (a + 4)))
     OR push_bit 40 (ucast (m (a + 5))) OR push_bit 48 (ucast (m (a + 6)))
     OR push_bit 56 (ucast (m (a + 7)))"

text \<open>
  \<^verbatim>\<open>kfree(pa)\<close>: a panic is \<open>Inl\<close> of its message. Otherwise the page is filled
  with the byte 1, then the old head of the calling CPU's list is written into
  the page as \<^verbatim>\<open>r->next\<close>, and the page becomes the head.
\<close>

definition kfree :: "addr \<Rightarrow> addr \<Rightarrow> nat \<Rightarrow> addr \<Rightarrow> kmem \<Rightarrow> string + kmem" where
  "kfree kend PHYSTOP current_id pa s =
     (if unat pa mod PGSIZE \<noteq> 0 \<or> pa < kend \<or> pa \<ge> PHYSTOP then Inl ''kfree''
      else
        let m1 = memset (mem s) pa 1 PGSIZE;
            m2 = store64 m1 pa (freelist s current_id)
        in Inr (s\<lparr>mem := m2, freelist := (freelist s)(current_id := pa)\<rparr>))"

text \<open>
  The stealing loop of \<^verbatim>\<open>kalloc\<close>: \<^verbatim>\<open>for (i = 0; i < NCPU; i++)\<close>, skipping the
  caller's own index, stopping at the first non-null head. When the loop runs
  out, \<open>r\<close> is the null pointer it read last.
\<close>

function kalloc_loop :: "nat \<Rightarrow> nat \<Rightarrow> nat \<Rightarrow> kmem \<Rightarrow> addr \<times> kmem" where
  "kalloc_loop NCPU current_id i s =
     (if i < NCPU then
        (if i \<noteq> current_id then
           (let r = freelist s i in
            if r \<noteq> 0
            then (r, s\<lparr>freelist := (freelist s)(i := load64 (mem s) r)\<rparr>)
            else kalloc_loop NCPU current_id (Suc i) s)
         else kalloc_loop NCPU current_id (Suc i) s)
      else (0, s))"
  by pat_completeness auto
termination
  by (relation "measure (\<lambda>(n, c, i, s). n - i)") auto

declare kalloc_loop.simps [simp del]

text \<open>\<^verbatim>\<open>kalloc()\<close>: returns the page address (0 for none) and the new state.\<close>

definition kalloc :: "nat \<Rightarrow> nat \<Rightarrow> kmem \<Rightarrow> addr \<times> kmem" where
  "kalloc NCPU current_id s =
     (let r = freelist s current_id;
          (r, s1) =
            (if r \<noteq> 0
             then (r, s\<lparr>freelist := (freelist s)(current_id := load64 (mem s) r)\<rparr>)
             else kalloc_loop NCPU current_id 0 s)
      in if r \<noteq> 0 then (r, s1\<lparr>mem := memset (mem s1) r 5 PGSIZE\<rparr>) else (r, s1))"


subsection \<open>Abstraction of the free lists\<close>

text \<open>A page address is aligned when it is a multiple of the page size.\<close>

definition aligned :: "addr \<Rightarrow> bool" where
  "aligned p = (unat p mod PGSIZE = 0)"

text \<open>
  \<open>flist m p xs\<close>: following \<^verbatim>\<open>r->next\<close> from the head pointer \<open>p\<close> in memory \<open>m\<close>
  visits exactly the pages \<open>xs\<close>, in this order, and then reaches the null pointer.
\<close>

fun flist :: "memory \<Rightarrow> addr \<Rightarrow> addr list \<Rightarrow> bool" where
  "flist m p [] = (p = 0)"
| "flist m p (x # xs) = (p = x \<and> x \<noteq> 0 \<and> flist m (load64 m x) xs)"

text \<open>Small allocator states for the concrete checks, all with zeroed memory:
  all lists empty; one page in the list of CPU 1; one page in the list of CPU 0
  and another in the list of CPU 1.\<close>

definition kmem0 :: kmem where
  "kmem0 = \<lparr>freelist = (\<lambda>i. 0), mem = (\<lambda>a. 0)\<rparr>"

definition kmem1 :: kmem where
  "kmem1 = \<lparr>freelist = (\<lambda>i. if i = 1 then 0x80001000 else 0), mem = (\<lambda>a. 0)\<rparr>"

definition kmem2 :: kmem where
  "kmem2 = \<lparr>freelist = (\<lambda>i. if i = 0 then 0x80003000 else if i = 1 then 0x80001000 else 0),
            mem = (\<lambda>a. 0)\<rparr>"

section \<open>Buffer cache (kernel/bio.c)\<close>

text \<open>
  The cache is the global \<^verbatim>\<open>bcache\<close>: the pool \<^verbatim>\<open>buf[NBUF]\<close> and one list head
  \<^verbatim>\<open>hashbucket[i]\<close> per bucket, all of type \<^verbatim>\<open>struct buf\<close>, linked through their
  \<^verbatim>\<open>prev\<close> and \<^verbatim>\<open>next\<close> pointers into circular doubly linked lists. A pointer to a
  \<^verbatim>\<open>struct buf\<close> is a \<open>bufref\<close>: the address of a list head, the address of a pool
  buffer, or the null pointer (the content of zero-initialised memory). The
  model keeps the pointer structure: the store \<open>bufs\<close> maps every reference to
  the structure it points to, and the operations update the pointers one
  assignment at a time, in the order of the source. The store also has an entry
  for \<open>Null\<close>, so that an assignment through a null pointer, which the C program
  leaves undefined, is a harmless update of that entry; no theorem below
  depends on it.

  \<^verbatim>\<open>NBUF\<close> is defined in \<^verbatim>\<open>param.h\<close>, which is not part of the sources; it is a
  parameter of \<open>binit\<close> and of the statements. The spinlocks \<^verbatim>\<open>bcache.lock[i]\<close>
  protect critical sections that the model executes atomically.
\<close>

datatype bufref = Null | Hashbucket nat | Buffer nat

text \<open>
  Modelled from the spec: \<^verbatim>\<open>struct buf\<close> is declared in \<^verbatim>\<open>buf.h\<close>, which is not part
  of the sources. The fields are those that bio.c uses (\<^verbatim>\<open>valid\<close>, \<^verbatim>\<open>dev\<close>,
  \<^verbatim>\<open>blockno\<close>, \<^verbatim>\<open>lock\<close>, \<^verbatim>\<open>refcnt\<close>, \<^verbatim>\<open>prev\<close>, \<^verbatim>\<open>next\<close>) and the data payload that the
  spec lists among the attributes of a buffer. \<^verbatim>\<open>dev\<close> and \<^verbatim>\<open>blockno\<close> have the type
  \<^verbatim>\<open>uint\<close> of the parameters of \<^verbatim>\<open>bget\<close>. The width and signedness of \<^verbatim>\<open>refcnt\<close> are
  not visible in the sources; the spec speaks of a count that may or may not go
  negative, so \<open>refcnt\<close> is an unbounded integer. The field \<^verbatim>\<open>next\<close> is called
  \<open>nxt\<close>. The content lock is the process that holds it, if any.
\<close>

record buf =
  valid :: int
  dev :: "32 word"
  blockno :: "32 word"
  lock :: "nat option"
  refcnt :: int
  prev :: bufref
  nxt :: bufref
  data :: "8 word list"

text \<open>
  The state: the store of buffer structures, the content of the disk by
  location \<open>(dev, blockno)\<close>, and the log of the transfers requested from the
  device (\<open>True\<close> for a write).
\<close>

record bio =
  bufs :: "bufref \<Rightarrow> buf"
  disk :: "32 word \<times> 32 word \<Rightarrow> 8 word list"
  io :: "(bool \<times> 32 word \<times> 32 word) list"

text \<open>
  The outcome of a call that may panic or block: \<open>Panic\<close> with the message;
  \<open>Returns b s\<close> when the call returns the buffer \<open>b\<close> in state \<open>s\<close>; \<open>Sleeps b s\<close>
  when the caller is put to sleep in \<^verbatim>\<open>acquiresleep\<close> on the content lock of \<open>b\<close>,
  having left the state \<open>s\<close> behind for the other processes.
\<close>

datatype outcome = Panic string | Sleeps bufref bio | Returns bufref bio

definition NBUCKETS :: nat where
  "NBUCKETS = 13"

definition upd :: "bufref \<Rightarrow> (buf \<Rightarrow> buf) \<Rightarrow> bio \<Rightarrow> bio" where
  "upd b f s = s\<lparr>bufs := (bufs s)(b := f (bufs s b))\<rparr>"

text \<open>
  Modelled from the spec: the sleep-lock functions \<^verbatim>\<open>initsleeplock\<close>,
  \<^verbatim>\<open>acquiresleep\<close>, \<^verbatim>\<open>releasesleep\<close> and \<^verbatim>\<open>holdingsleep\<close> are defined in
  \<^verbatim>\<open>sleeplock.c\<close>, which is not part of the sources. The spec describes a
  blocking, exclusive lock with one holder at a time: acquiring a free lock
  makes the calling process \<open>p\<close> its holder, acquiring a held lock blocks the
  caller, releasing frees the lock, and \<^verbatim>\<open>holdingsleep\<close> tells whether the caller
  is the holder.
\<close>

definition initsleeplock :: "bufref \<Rightarrow> bio \<Rightarrow> bio" where
  "initsleeplock b s = upd b (\<lambda>x. x\<lparr>lock := None\<rparr>) s"

definition holdingsleep :: "nat \<Rightarrow> bufref \<Rightarrow> bio \<Rightarrow> bool" where
  "holdingsleep p b s = (lock (bufs s b) = Some p)"

definition releasesleep :: "bufref \<Rightarrow> bio \<Rightarrow> bio" where
  "releasesleep b s = upd b (\<lambda>x. x\<lparr>lock := None\<rparr>) s"

definition acquiresleep :: "nat \<Rightarrow> bufref \<Rightarrow> bio \<Rightarrow> outcome" where
  "acquiresleep p b s =
     (if lock (bufs s b) = None then Returns b (upd b (\<lambda>x. x\<lparr>lock := Some p\<rparr>) s)
      else Sleeps b s)"

text \<open>
  Modelled from the spec: \<^verbatim>\<open>virtio_disk_rw\<close> is defined in \<^verbatim>\<open>virtio_disk.c\<close>, which is
  not part of the sources. The spec describes a synchronous, infallible transfer
  of one block between the payload of the buffer and the device location given
  by its \<open>(dev, blockno)\<close>.
\<close>

definition virtio_disk_rw :: "bufref \<Rightarrow> bool \<Rightarrow> bio \<Rightarrow> bio" where
  "virtio_disk_rw b write s =
     (let loc = (dev (bufs s b), blockno (bufs s b)) in
      if write
      then s\<lparr>disk := (disk s)(loc := data (bufs s b)), io := io s @ [(True, loc)]\<rparr>
      else (upd b (\<lambda>x. x\<lparr>data := disk s loc\<rparr>) s)\<lparr>io := io s @ [(False, loc)]\<rparr>)"

text \<open>The assignments \<^verbatim>\<open>b->next = v\<close> and \<^verbatim>\<open>b->prev = v\<close>.\<close>

definition set_next :: "bufref \<Rightarrow> bufref \<Rightarrow> bio \<Rightarrow> bio" where
  "set_next b v s = upd b (\<lambda>x. x\<lparr>nxt := v\<rparr>) s"

definition set_prev :: "bufref \<Rightarrow> bufref \<Rightarrow> bio \<Rightarrow> bio" where
  "set_prev b v s = upd b (\<lambda>x. x\<lparr>prev := v\<rparr>) s"

text \<open>
  \<^verbatim>\<open>b->next->prev = b->prev; b->prev->next = b->next;\<close> takes \<open>b\<close> out of its list.
\<close>

definition unlink :: "bufref \<Rightarrow> bio \<Rightarrow> bio" where
  "unlink b s =
     (let s1 = set_prev (nxt (bufs s b)) (prev (bufs s b)) s;
          s2 = set_next (prev (bufs s1 b)) (nxt (bufs s1 b)) s1
      in s2)"

text \<open>
  The four assignments that insert \<open>b\<close> right after the list head \<open>h\<close>:
  \<^verbatim>\<open>b->next = h.next; b->prev = &h; h.next->prev = b; h.next = b;\<close>
\<close>

definition push_front :: "bufref \<Rightarrow> bufref \<Rightarrow> bio \<Rightarrow> bio" where
  "push_front h b s =
     (let s1 = set_next b (nxt (bufs s h)) s;
          s2 = set_prev b h s1;
          s3 = set_prev (nxt (bufs s2 h)) b s2;
          s4 = set_next h b s3
      in s4)"

text \<open>
  \<^verbatim>\<open>b->dev = dev; b->blockno = blockno; b->valid = 0; b->refcnt = 1;\<close>
\<close>

definition retag :: "32 word \<Rightarrow> 32 word \<Rightarrow> bufref \<Rightarrow> bio \<Rightarrow> bio" where
  "retag d bn b s = upd b (\<lambda>x. x\<lparr>dev := d, blockno := bn, valid := 0, refcnt := 1\<rparr>) s"

text \<open>
  \<^verbatim>\<open>binit\<close>: the loop over the list heads, then the loop over the pool, whose body
  is \<open>binit_body\<close>.
\<close>

function binit_heads :: "nat \<Rightarrow> bio \<Rightarrow> bio" where
  "binit_heads i s =
     (if i < NBUCKETS
      then binit_heads (Suc i)
             (set_next (Hashbucket i) (Hashbucket i) (set_prev (Hashbucket i) (Hashbucket i) s))
      else s)"
  by pat_completeness auto
termination
  by (relation "measure (\<lambda>(i, s). NBUCKETS - i)") auto

definition binit_body :: "nat \<Rightarrow> bio \<Rightarrow> bio" where
  "binit_body j s =
     (let b = Buffer j;
          bucketno = unat (blockno (bufs s b) mod 13);
          s1 = set_next b (nxt (bufs s (Hashbucket bucketno))) s;
          s2 = set_prev b (Hashbucket bucketno) s1;
          s3 = initsleeplock b s2;
          s4 = set_prev (nxt (bufs s3 (Hashbucket bucketno))) b s3;
          s5 = set_next (Hashbucket bucketno) b s4
      in s5)"

function binit_bufs :: "nat \<Rightarrow> nat \<Rightarrow> bio \<Rightarrow> bio" where
  "binit_bufs NBUF j s =
     (if j < NBUF then binit_bufs NBUF (Suc j) (binit_body j s) else s)"
  by pat_completeness auto
termination
  by (relation "measure (\<lambda>(n, j, s). n - j)") auto

declare binit_heads.simps [simp del] binit_bufs.simps [simp del]

definition binit :: "nat \<Rightarrow> bio \<Rightarrow> bio" where
  "binit NBUF s = binit_bufs NBUF 0 (binit_heads 0 s)"

text \<open>
  \<^verbatim>\<open>bget\<close> for the calling process \<open>p\<close>. Each loop follows pointers until it is
  back at the list head, which it need not be in an arbitrary store; a loop that
  does not end has the value \<open>None\<close>. A loop that ends gives \<open>Some None\<close> when it
  has found nothing, and \<open>Some (Some r)\<close> when \<^verbatim>\<open>bget\<close> leaves from inside the loop
  with outcome \<open>r\<close>. The three scans are \<open>bget_cached\<close> (forward, for the tag),
  \<open>bget_unused\<close> (forward, for a zero reference count) and \<open>bget_lru\<close> (backward
  through another bucket, for a zero reference count); \<open>bget_steal\<close> is the loop
  over the buckets.
\<close>

partial_function (option) bget_cached ::
  "nat \<Rightarrow> 32 word \<Rightarrow> 32 word \<Rightarrow> bufref \<Rightarrow> bufref \<Rightarrow> bio \<Rightarrow> outcome option option" where
  "bget_cached p d bn h b s =
     (if b = h then Some None
      else if dev (bufs s b) = d \<and> blockno (bufs s b) = bn
      then Some (Some (acquiresleep p b (upd b (\<lambda>x. x\<lparr>refcnt := refcnt x + 1\<rparr>) s)))
      else bget_cached p d bn h (nxt (bufs s b)) s)"

partial_function (option) bget_unused ::
  "nat \<Rightarrow> 32 word \<Rightarrow> 32 word \<Rightarrow> bufref \<Rightarrow> bufref \<Rightarrow> bio \<Rightarrow> outcome option option" where
  "bget_unused p d bn h b s =
     (if b = h then Some None
      else if refcnt (bufs s b) = 0
      then Some (Some (acquiresleep p b (retag d bn b s)))
      else bget_unused p d bn h (nxt (bufs s b)) s)"

partial_function (option) bget_lru ::
  "nat \<Rightarrow> 32 word \<Rightarrow> 32 word \<Rightarrow> nat \<Rightarrow> bufref \<Rightarrow> bufref \<Rightarrow> bio \<Rightarrow> outcome option option" where
  "bget_lru p d bn bucketno h b s =
     (if b = h then Some None
      else if refcnt (bufs s b) = 0
      then Some (Some (acquiresleep p b
             (push_front (Hashbucket bucketno) b (unlink b (retag d bn b s)))))
      else bget_lru p d bn bucketno h (prev (bufs s b)) s)"

partial_function (option) bget_steal ::
  "nat \<Rightarrow> 32 word \<Rightarrow> 32 word \<Rightarrow> nat \<Rightarrow> nat \<Rightarrow> bio \<Rightarrow> outcome option option" where
  "bget_steal p d bn bucketno i s =
     (if i < NBUCKETS then
        (if i \<noteq> bucketno then
           (case bget_lru p d bn bucketno (Hashbucket i) (prev (bufs s (Hashbucket i))) s of
              None \<Rightarrow> None
            | Some (Some r) \<Rightarrow> Some (Some r)
            | Some None \<Rightarrow> bget_steal p d bn bucketno (Suc i) s)
         else bget_steal p d bn bucketno (Suc i) s)
      else Some None)"

definition bget :: "nat \<Rightarrow> 32 word \<Rightarrow> 32 word \<Rightarrow> bio \<Rightarrow> outcome option" where
  "bget p d bn s =
     (let bucketno = unat (bn mod 13); h = Hashbucket bucketno in
      case bget_cached p d bn h (nxt (bufs s h)) s of
        None \<Rightarrow> None
      | Some (Some r) \<Rightarrow> Some r
      | Some None \<Rightarrow>
         (case bget_unused p d bn h (nxt (bufs s h)) s of
            None \<Rightarrow> None
          | Some (Some r) \<Rightarrow> Some r
          | Some None \<Rightarrow>
             (case bget_steal p d bn bucketno 0 s of
                None \<Rightarrow> None
              | Some (Some r) \<Rightarrow> Some r
              | Some None \<Rightarrow> Some (Panic ''bget: no buffers''))))"

text \<open>
  \<^verbatim>\<open>bread\<close>, \<^verbatim>\<open>bwrite\<close>, \<^verbatim>\<open>brelse\<close>, \<^verbatim>\<open>bpin\<close> and \<^verbatim>\<open>bunpin\<close>. A caller of \<^verbatim>\<open>bread\<close> that
  sleeps inside \<^verbatim>\<open>bget\<close> has not reached the test of \<^verbatim>\<open>valid\<close> yet.
\<close>

definition bread :: "nat \<Rightarrow> 32 word \<Rightarrow> 32 word \<Rightarrow> bio \<Rightarrow> outcome option" where
  "bread p d bn s =
     (case bget p d bn s of
        None \<Rightarrow> None
      | Some (Returns b s1) \<Rightarrow>
          Some (if valid (bufs s1 b) = 0
                then Returns b (upd b (\<lambda>x. x\<lparr>valid := 1\<rparr>) (virtio_disk_rw b False s1))
                else Returns b s1)
      | Some r \<Rightarrow> Some r)"

definition bwrite :: "nat \<Rightarrow> bufref \<Rightarrow> bio \<Rightarrow> string + bio" where
  "bwrite p b s =
     (if \<not> holdingsleep p b s then Inl ''bwrite'' else Inr (virtio_disk_rw b True s))"

definition brelse :: "nat \<Rightarrow> bufref \<Rightarrow> bio \<Rightarrow> string + bio" where
  "brelse p b s =
     (if \<not> holdingsleep p b s then Inl ''brelse''
      else
        let s1 = releasesleep b s;
            bucketno = unat (blockno (bufs s1 b) mod 13);
            s2 = upd b (\<lambda>x. x\<lparr>refcnt := refcnt x - 1\<rparr>) s1
        in Inr (if refcnt (bufs s2 b) = 0
                then push_front (Hashbucket bucketno) b (unlink b s2)
                else s2))"

definition bpin :: "bufref \<Rightarrow> bio \<Rightarrow> bio" where
  "bpin b s = upd b (\<lambda>x. x\<lparr>refcnt := refcnt x + 1\<rparr>) s"

definition bunpin :: "bufref \<Rightarrow> bio \<Rightarrow> bio" where
  "bunpin b s = upd b (\<lambda>x. x\<lparr>refcnt := refcnt x - 1\<rparr>) s"

text \<open>Zero-initialised memory (the C globals before \<^verbatim>\<open>binit\<close>), with an empty disk.\<close>

definition zero_buf :: buf where
  "zero_buf = \<lparr>valid = 0, dev = 0, blockno = 0, lock = None, refcnt = 0,
               prev = Null, nxt = Null, data = []\<rparr>"

definition bio0 :: bio where
  "bio0 = \<lparr>bufs = (\<lambda>b. zero_buf), disk = (\<lambda>loc. []), io = []\<rparr>"



declare bget_cached.simps [code] bget_unused.simps [code] bget_lru.simps [code]
  bget_steal.simps [code]

subsection \<open>Abstraction of the bucket lists\<close>

text \<open>
  \<open>path f a xs z\<close>: following \<open>f\<close> from \<open>a\<close> visits exactly the nodes \<open>xs\<close>, in this
  order, and then arrives at \<open>z\<close>. \<open>ring s i js\<close>: the list of bucket \<open>i\<close> is
  circular and holds the pool buffers \<open>js\<close>, from the head's \<^verbatim>\<open>next\<close> pointer on,
  and the \<^verbatim>\<open>prev\<close> pointers run through the same buffers backwards.
  \<open>lists_ok NBUF s L\<close>: \<open>L\<close> gives the content of every bucket list, and every
  buffer of the pool is in exactly one of them.
\<close>

definition nx :: "bio \<Rightarrow> bufref \<Rightarrow> bufref" where
  "nx s x = nxt (bufs s x)"

definition pv :: "bio \<Rightarrow> bufref \<Rightarrow> bufref" where
  "pv s x = prev (bufs s x)"

definition meta :: "bio \<Rightarrow> bufref \<Rightarrow> int \<times> 32 word \<times> 32 word \<times> nat option \<times> int \<times> 8 word list" where
  "meta s x = (valid (bufs s x), dev (bufs s x), blockno (bufs s x), lock (bufs s x),
               refcnt (bufs s x), data (bufs s x))"

fun path :: "('a \<Rightarrow> 'a) \<Rightarrow> 'a \<Rightarrow> 'a list \<Rightarrow> 'a \<Rightarrow> bool" where
  "path f a [] z = (f a = z)"
| "path f a (x # xs) z = (f a = x \<and> path f x xs z)"

definition ring :: "bio \<Rightarrow> nat \<Rightarrow> nat list \<Rightarrow> bool" where
  "ring s i js =
     (path (nx s) (Hashbucket i) (map Buffer js) (Hashbucket i) \<and>
      path (pv s) (Hashbucket i) (rev (map Buffer js)) (Hashbucket i) \<and>
      distinct js)"

definition layout :: "nat set \<Rightarrow> bio \<Rightarrow> (nat \<Rightarrow> nat list) \<Rightarrow> bool" where
  "layout S s L =
     ((\<forall>i<NBUCKETS. ring s i (L i)) \<and>
      (\<forall>i<NBUCKETS. \<forall>k<NBUCKETS. i \<noteq> k \<longrightarrow> set (L i) \<inter> set (L k) = {}) \<and>
      (\<Union>i<NBUCKETS. set (L i)) = S)"

definition lists_ok :: "nat \<Rightarrow> bio \<Rightarrow> (nat \<Rightarrow> nat list) \<Rightarrow> bool" where
  "lists_ok NBUF s L = layout {..<NBUF} s L"


text \<open>
  The algorithm of \<^verbatim>\<open>bget\<close> on the bucket contents \<open>L\<close>, as the spec tells it: the
  first buffer of the home bucket with the tag; else the first unused buffer of
  the home bucket; else the unused buffer nearest to the tail of the first other
  bucket that has one (\<open>victim\<close>); else a panic. The pointer-following \<open>bget\<close> is
  proved below to compute \<open>acquire_spec\<close> whenever the lists are well formed.
\<close>

definition cached :: "bio \<Rightarrow> 32 word \<Rightarrow> 32 word \<Rightarrow> nat \<Rightarrow> bool" where
  "cached s d bn j = (dev (bufs s (Buffer j)) = d \<and> blockno (bufs s (Buffer j)) = bn)"

definition unused :: "bio \<Rightarrow> nat \<Rightarrow> bool" where
  "unused s j = (refcnt (bufs s (Buffer j)) = 0)"

primrec victim :: "bio \<Rightarrow> (nat \<Rightarrow> nat list) \<Rightarrow> nat \<Rightarrow> nat list \<Rightarrow> (nat \<times> nat) option" where
  "victim s L home [] = None"
| "victim s L home (k # ks) =
     (if k \<noteq> home
      then (case find (unused s) (rev (L k)) of
              Some j \<Rightarrow> Some (k, j)
            | None \<Rightarrow> victim s L home ks)
      else victim s L home ks)"

definition acquire_spec :: "(nat \<Rightarrow> nat list) \<Rightarrow> nat \<Rightarrow> 32 word \<Rightarrow> 32 word \<Rightarrow> bio \<Rightarrow> outcome" where
  "acquire_spec L p d bn s =
     (let home = unat (bn mod 13) in
      case find (cached s d bn) (L home) of
        Some j \<Rightarrow> acquiresleep p (Buffer j) (upd (Buffer j) (\<lambda>x. x\<lparr>refcnt := refcnt x + 1\<rparr>) s)
      | None \<Rightarrow>
         (case find (unused s) (L home) of
            Some j \<Rightarrow> acquiresleep p (Buffer j) (retag d bn (Buffer j) s)
          | None \<Rightarrow>
             (case victim s L home [0..<NBUCKETS] of
                Some (k, j) \<Rightarrow>
                  acquiresleep p (Buffer j)
                    (push_front (Hashbucket home) (Buffer j)
                       (unlink (Buffer j) (retag d bn (Buffer j) s)))
              | None \<Rightarrow> Panic ''bget: no buffers'')))"


text \<open>
  \<open>home_ok\<close>: every buffer listed in bucket \<open>i\<close> has a block number that is \<open>i\<close>
  modulo 13. \<open>first_only\<close>: a referenced buffer is the first one of its bucket
  list with its tag. \<open>uniq\<close>: no two referenced buffers of the pool have the
  same tag.
\<close>

definition home_ok :: "bio \<Rightarrow> (nat \<Rightarrow> nat list) \<Rightarrow> bool" where
  "home_ok s L =
     (\<forall>i<NBUCKETS. \<forall>j\<in>set (L i). unat (blockno (bufs s (Buffer j)) mod 13) = i)"

definition binit_layout :: "bio \<Rightarrow> nat \<Rightarrow> nat \<Rightarrow> nat list" where
  "binit_layout s n i =
     rev (filter (\<lambda>j. unat (blockno (bufs s (Buffer j)) mod 13) = i) [0..<n])"


definition tag :: "bio \<Rightarrow> nat \<Rightarrow> 32 word \<times> 32 word" where
  "tag s j = (dev (bufs s (Buffer j)), blockno (bufs s (Buffer j)))"

definition first_only :: "bio \<Rightarrow> (nat \<Rightarrow> nat list) \<Rightarrow> bool" where
  "first_only s L =
     (\<forall>i<NBUCKETS. \<forall>j\<in>set (L i). 0 < refcnt (bufs s (Buffer j)) \<longrightarrow>
        find (\<lambda>k. tag s k = tag s j) (L i) = Some j)"


definition zeroed :: "bio \<Rightarrow> bool" where
  "zeroed s =
     (\<forall>x. valid (bufs s x) = 0 \<and> dev (bufs s x) = 0 \<and> blockno (bufs s x) = 0 \<and>
          refcnt (bufs s x) = 0 \<and> lock (bufs s x) = None)"


text \<open>The bucket contents after \<^verbatim>\<open>bget\<close> and after \<^verbatim>\<open>brelse\<close> of buffer \<open>j\<close>.\<close>

definition acquire_layout :: "(nat \<Rightarrow> nat list) \<Rightarrow> 32 word \<Rightarrow> 32 word \<Rightarrow> bio \<Rightarrow> nat \<Rightarrow> nat list" where
  "acquire_layout L d bn s =
     (let home = unat (bn mod 13) in
      case find (cached s d bn) (L home) of
        Some j \<Rightarrow> L
      | None \<Rightarrow>
         (case find (unused s) (L home) of
            Some j \<Rightarrow> L
          | None \<Rightarrow>
             (case victim s L home [0..<NBUCKETS] of
                Some (k, j) \<Rightarrow> (L(k := remove1 j (L k)))(home := j # L home)
              | None \<Rightarrow> L)))"

definition release_layout :: "(nat \<Rightarrow> nat list) \<Rightarrow> bio \<Rightarrow> nat \<Rightarrow> nat \<Rightarrow> nat list" where
  "release_layout L s j =
     (let i = unat (blockno (bufs s (Buffer j)) mod 13) in
      if refcnt (bufs s (Buffer j)) = 1 then L(i := j # remove1 j (L i)) else L)"

fun state_of :: "outcome \<Rightarrow> bio option" where
  "state_of (Panic m) = None"
| "state_of (Sleeps b s) = Some s"
| "state_of (Returns b s) = Some s"

fun yield :: "outcome \<Rightarrow> bufref option" where
  "yield (Panic m) = None"
| "yield (Sleeps b s) = Some b"
| "yield (Returns b s) = Some b"


text \<open>A two-buffer cache after \<^verbatim>\<open>binit\<close> in which both buffers are marked as loaded.\<close>

definition warm2 :: bio where
  "warm2 = upd (Buffer 0) (\<lambda>x. x\<lparr>valid := 1\<rparr>)
             (upd (Buffer 1) (\<lambda>x. x\<lparr>valid := 1\<rparr>) (binit 2 bio0))"

text \<open>A one-buffer cache in which process 7 holds the content lock of the buffer.\<close>

definition held1 :: bio where
  "held1 = upd (Buffer 0) (\<lambda>x. x\<lparr>lock := Some 7, refcnt := 1, data := [1, 2, 3]\<rparr>) (binit 1 bio0)"


text \<open>
  A three-buffer cache after \<^verbatim>\<open>binit\<close> in which buffer 0 has been retagged for block
  (0, 5) and moved from the tail of bucket 0 to bucket 5, the way \<^verbatim>\<open>bget\<close> does it
  (\<open>moved3\<close>); and the same cache with process 7 holding the content locks of
  buffer 1, referenced once, and buffer 2, referenced twice (\<open>held3\<close>). The list of
  bucket 0 is then buffer 2, buffer 1.
\<close>

definition moved3 :: bio where
  "moved3 = push_front (Hashbucket 5) (Buffer 0)
              (unlink (Buffer 0) (retag 0 5 (Buffer 0) (binit 3 bio0)))"

definition held3 :: bio where
  "held3 = upd (Buffer 2) (\<lambda>x. x\<lparr>lock := Some 7, refcnt := 2\<rparr>)
             (upd (Buffer 1) (\<lambda>x. x\<lparr>lock := Some 7, refcnt := 1\<rparr>) moved3)"

text \<open>The state that \<^verbatim>\<open>bget(0, 0)\<close> by process 7 leaves in a one-buffer cache after
  \<^verbatim>\<open>binit\<close>: the only buffer is referenced and locked.\<close>

definition busy1 :: bio where
  "busy1 = upd (Buffer 0) (\<lambda>x. x\<lparr>lock := Some 7\<rparr>)
             (upd (Buffer 0) (\<lambda>x. x\<lparr>refcnt := refcnt x + 1\<rparr>) (binit 1 bio0))"


subsection \<open>Reachable states\<close>

text \<open>
  The states of the cache that arise from \<^verbatim>\<open>binit\<close> on zero-initialised memory by
  any sequence of operations on buffers of the pool, by any processes. A call
  of \<^verbatim>\<open>bget\<close> or \<^verbatim>\<open>bread\<close> that has to sleep leaves its intermediate state
  (rules \<open>r_bget\<close> and \<open>r_bread\<close> with a \<open>Sleeps\<close> outcome); the sleeper later gets
  the lock (\<open>r_wakeup\<close>) and, inside \<^verbatim>\<open>bread\<close>, may load the block (\<open>r_load\<close>). With
  \<open>strict\<close> set, \<^verbatim>\<open>bpin\<close> is only applied to a buffer that is referenced.
\<close>

inductive reach :: "bool \<Rightarrow> nat \<Rightarrow> bio \<Rightarrow> bool" for strict :: bool and n :: nat where
  r_init: "zeroed s0 \<Longrightarrow> reach strict n (binit n s0)"
| r_bget: "reach strict n s \<Longrightarrow> bget p d bn s = Some r \<Longrightarrow> state_of r = Some t \<Longrightarrow>
     reach strict n t"
| r_bread: "reach strict n s \<Longrightarrow> bread p d bn s = Some r \<Longrightarrow> state_of r = Some t \<Longrightarrow>
     reach strict n t"
| r_wakeup: "reach strict n s \<Longrightarrow> j < n \<Longrightarrow> state_of (acquiresleep p (Buffer j) s) = Some t \<Longrightarrow>
     reach strict n t"
| r_load: "reach strict n s \<Longrightarrow> j < n \<Longrightarrow>
     reach strict n (upd (Buffer j) (\<lambda>x. x\<lparr>valid := 1\<rparr>) (virtio_disk_rw (Buffer j) False s))"
| r_bwrite: "reach strict n s \<Longrightarrow> j < n \<Longrightarrow> bwrite p (Buffer j) s = Inr t \<Longrightarrow> reach strict n t"
| r_brelse: "reach strict n s \<Longrightarrow> j < n \<Longrightarrow> brelse p (Buffer j) s = Inr t \<Longrightarrow> reach strict n t"
| r_bpin: "reach strict n s \<Longrightarrow> j < n \<Longrightarrow> (strict \<longrightarrow> 0 < refcnt (bufs s (Buffer j))) \<Longrightarrow>
     reach strict n (bpin (Buffer j) s)"
| r_bunpin: "reach strict n s \<Longrightarrow> j < n \<Longrightarrow> reach strict n (bunpin (Buffer j) s)"




subsection \<open>Disciplined use\<close>


subsection \<open>Matched usage\<close>

text \<open>
  The same sequences of operations, with a ledger \<open>h\<close> that counts for every
  buffer of the pool the increments of its reference count not yet matched by a
  decrement. A decrement (\<^verbatim>\<open>brelse\<close>, \<^verbatim>\<open>bunpin\<close>) is only allowed on a buffer whose
  ledger entry is positive: it is matched by an earlier increment that no other
  decrement has used.
\<close>

inductive matched :: "nat \<Rightarrow> bio \<Rightarrow> (nat \<Rightarrow> nat) \<Rightarrow> bool" for n :: nat where
  m_init: "zeroed s0 \<Longrightarrow> matched n (binit n s0) (\<lambda>j. 0)"
| m_bget: "matched n s h \<Longrightarrow> bget p d bn s = Some r \<Longrightarrow> state_of r = Some t \<Longrightarrow>
     yield r = Some (Buffer j) \<Longrightarrow> matched n t (h(j := Suc (h j)))"
| m_bread: "matched n s h \<Longrightarrow> bread p d bn s = Some r \<Longrightarrow> state_of r = Some t \<Longrightarrow>
     yield r = Some (Buffer j) \<Longrightarrow> matched n t (h(j := Suc (h j)))"
| m_wakeup: "matched n s h \<Longrightarrow> j < n \<Longrightarrow> state_of (acquiresleep p (Buffer j) s) = Some t \<Longrightarrow>
     matched n t h"
| m_load: "matched n s h \<Longrightarrow> j < n \<Longrightarrow>
     matched n (upd (Buffer j) (\<lambda>x. x\<lparr>valid := 1\<rparr>) (virtio_disk_rw (Buffer j) False s)) h"
| m_bwrite: "matched n s h \<Longrightarrow> j < n \<Longrightarrow> bwrite p (Buffer j) s = Inr t \<Longrightarrow> matched n t h"
| m_brelse: "matched n s h \<Longrightarrow> j < n \<Longrightarrow> 0 < h j \<Longrightarrow> brelse p (Buffer j) s = Inr t \<Longrightarrow>
     matched n t (h(j := h j - 1))"
| m_bpin: "matched n s h \<Longrightarrow> j < n \<Longrightarrow> matched n (bpin (Buffer j) s) (h(j := Suc (h j)))"
| m_bunpin: "matched n s h \<Longrightarrow> j < n \<Longrightarrow> 0 < h j \<Longrightarrow>
     matched n (bunpin (Buffer j) s) (h(j := h j - 1))"

section \<open>Properties of the page allocator\<close>

subsection \<open>Byte memory\<close>


lemma store64_byte:
  "unat k < 8 \<Longrightarrow> store64 m a v (a + k) = ucast (drop_bit (8 * unat k) v)"
  by (simp add: store64_def)

lemma bit_byte_term:
  "bit (push_bit j (ucast (ucast (drop_bit j (v::64 word)) :: 8 word) :: 64 word)) n
     \<longleftrightarrow> j \<le> n \<and> n < j + 8 \<and> bit v n"
  by (auto simp: bit_simps dest: bit_imp_le_length)

lemma load64_store64: "load64 (store64 m a v) a = v"
proof (rule bit_word_eqI)
  fix n assume n: "n < LENGTH(64)"
  have b: "store64 m a v (a + k) = ucast (drop_bit (8 * unat k) v)" if "unat k < 8" for k
    using that by (rule store64_byte)
  have l: "load64 (store64 m a v) a =
     push_bit 0 (ucast (ucast (drop_bit 0 v) :: 8 word)) OR
     push_bit 8 (ucast (ucast (drop_bit 8 v) :: 8 word)) OR
     push_bit 16 (ucast (ucast (drop_bit 16 v) :: 8 word)) OR
     push_bit 24 (ucast (ucast (drop_bit 24 v) :: 8 word)) OR
     push_bit 32 (ucast (ucast (drop_bit 32 v) :: 8 word)) OR
     push_bit 40 (ucast (ucast (drop_bit 40 v) :: 8 word)) OR
     push_bit 48 (ucast (ucast (drop_bit 48 v) :: 8 word)) OR
     push_bit 56 (ucast (ucast (drop_bit 56 v) :: 8 word))"
    using b[of 0] b[of 1] b[of 2] b[of 3] b[of 4] b[of 5] b[of 6] b[of 7]
    by (simp add: load64_def)
  show "bit (load64 (store64 m a v) a) n = bit v n"
    unfolding l bit_or_iff bit_byte_term using n by (cases "bit v n") auto
qed

lemma other_page:
  assumes "aligned p" "aligned q" "p \<noteq> q" "k < 8"
  shows "\<not> unat (q + of_nat k - p) < PGSIZE"
proof -
  obtain a where a: "unat p = 4096 * a"
    using assms(1) by (auto simp: aligned_def PGSIZE_def)
  obtain b where b: "unat q = 4096 * b"
    using assms(2) by (auto simp: aligned_def PGSIZE_def)
  have ab: "a \<noteq> b" using assms(3) a b by (metis word_unat_eq_iff)
  have pl: "unat p < 2 ^ 64" using unsigned_less [of p] by simp
  have ql: "unat q < 2 ^ 64" using unsigned_less [of q] by simp
  have kk: "unat (of_nat k :: addr) = k" using assms(4) by (simp add: unat_of_nat)
  have qk: "unat (q + of_nat k) = unat q + k"
    using ql b assms(4) kk by (simp add: unat_word_ariths)
  show ?thesis
    using a b ab pl ql assms(4) qk
    unfolding unat_sub_if_size word_size PGSIZE_def by (simp; arith)
qed

lemma other_page8:
  assumes "aligned p" "aligned q" "p \<noteq> q" "k < 8"
  shows "\<not> unat (q + of_nat k - p) < 8"
  using other_page [OF assms] by (simp add: PGSIZE_def)

lemma load64_cong:
  assumes "\<And>k. k < 8 \<Longrightarrow> m' (a + of_nat k) = m (a + of_nat k)"
  shows "load64 m' a = load64 m a"
  using assms [of 0] assms [of 1] assms [of 2] assms [of 3]
        assms [of 4] assms [of 5] assms [of 6] assms [of 7]
  by (simp add: load64_def)

lemma load64_memset_other:
  assumes "aligned p" "aligned q" "p \<noteq> q"
  shows "load64 (memset m p c PGSIZE) q = load64 m q"
  by (rule load64_cong) (simp add: memset_def other_page [OF assms])

lemma load64_store64_other:
  assumes "aligned p" "aligned q" "p \<noteq> q"
  shows "load64 (store64 m p v) q = load64 m q"
  by (rule load64_cong) (simp add: store64_def other_page8 [OF assms])

lemma flist_cong:
  assumes "\<And>x. x \<in> set xs \<Longrightarrow> load64 m' x = load64 m x"
  shows "flist m' p xs = flist m p xs"
  using assms by (induction xs arbitrary: p) auto


subsection \<open>The stealing loop\<close>

lemma kalloc_loop_skip:
  "i < n \<Longrightarrow> i = c \<or> freelist s i = 0 \<Longrightarrow> kalloc_loop n c i s = kalloc_loop n c (Suc i) s"
  by (subst kalloc_loop.simps) (auto simp: Let_def)

lemma kalloc_loop_take:
  "i < n \<Longrightarrow> i \<noteq> c \<Longrightarrow> freelist s i \<noteq> 0 \<Longrightarrow>
   kalloc_loop n c i s =
     (freelist s i, s\<lparr>freelist := (freelist s)(i := load64 (mem s) (freelist s i))\<rparr>)"
  by (subst kalloc_loop.simps) (simp add: Let_def)

lemma kalloc_loop_end: "\<not> i < n \<Longrightarrow> kalloc_loop n c i s = (0, s)"
  by (subst kalloc_loop.simps) simp

lemma kalloc_loop_first:
  assumes "j < n" "j \<noteq> c" "freelist s j \<noteq> 0" "k \<le> j"
    and "\<forall>i. k \<le> i \<and> i < j \<and> i \<noteq> c \<longrightarrow> freelist s i = 0"
  shows "kalloc_loop n c k s =
           (freelist s j, s\<lparr>freelist := (freelist s)(j := load64 (mem s) (freelist s j))\<rparr>)"
  using assms(4,5)
proof (induction "j - k" arbitrary: k)
  case 0
  then have "k = j" by simp
  then show ?case by (simp only: kalloc_loop_take [OF assms(1,2,3)])
next
  case (Suc d)
  then have lt: "k < j" "k < n" using assms(1) by simp_all
  have skip: "k = c \<or> freelist s k = 0" using Suc.prems(2) lt by auto
  have "kalloc_loop n c k s = kalloc_loop n c (Suc k) s"
    by (rule kalloc_loop_skip [OF lt(2) skip])
  also have "\<dots> = (freelist s j, s\<lparr>freelist := (freelist s)(j := load64 (mem s) (freelist s j))\<rparr>)"
    using Suc.hyps(2) Suc.prems lt by (intro Suc.hyps(1)) auto
  finally show ?case .
qed

lemma kalloc_loop_zero_iff:
  "fst (kalloc_loop n c k s) = 0 \<longleftrightarrow> (\<forall>i. k \<le> i \<and> i < n \<and> i \<noteq> c \<longrightarrow> freelist s i = 0)"
proof (induction "n - k" arbitrary: k)
  case 0
  then show ?case by (auto simp: kalloc_loop_end)
next
  case (Suc d)
  then have lt: "k < n" by simp
  have split: "(\<forall>i. k \<le> i \<and> i < n \<and> i \<noteq> c \<longrightarrow> freelist s i = 0) \<longleftrightarrow>
        ((k \<noteq> c \<longrightarrow> freelist s k = 0) \<and>
         (\<forall>i. Suc k \<le> i \<and> i < n \<and> i \<noteq> c \<longrightarrow> freelist s i = 0))"
    using lt by (metis Suc_leI le_neq_implies_less Suc_leD order_refl)
  have ih: "fst (kalloc_loop n c (Suc k) s) = 0 \<longleftrightarrow>
        (\<forall>i. Suc k \<le> i \<and> i < n \<and> i \<noteq> c \<longrightarrow> freelist s i = 0)"
    using Suc.hyps(2) by (intro Suc.hyps(1)) simp
  show ?case
  proof (cases "k = c \<or> freelist s k = 0")
    case True
    then show ?thesis
      unfolding split kalloc_loop_skip [OF lt True] ih by auto
  next
    case False
    then show ?thesis
      unfolding split using kalloc_loop_take [OF lt, of c s] by auto
  qed
qed

lemma kalloc_loop_none:
  "\<forall>i. k \<le> i \<and> i < n \<and> i \<noteq> c \<longrightarrow> freelist s i = 0 \<Longrightarrow> kalloc_loop n c k s = (0, s)"
proof (induction "n - k" arbitrary: k)
  case 0
  then show ?case by (simp add: kalloc_loop_end)
next
  case (Suc d)
  then have lt: "k < n" by simp
  have skip: "k = c \<or> freelist s k = 0" using Suc.prems lt by auto
  show ?case
    unfolding kalloc_loop_skip [OF lt skip]
    using Suc.hyps(2) Suc.prems by (intro Suc.hyps(1)) auto
qed


lemma flist_unique: "flist m p xs \<Longrightarrow> flist m p ys \<Longrightarrow> xs = ys"
proof (induction xs arbitrary: p ys)
  case Nil
  then show ?case by (cases ys) auto
next
  case (Cons x xs)
  then show ?case by (cases ys) auto
qed

lemma flist_suffix: "flist m p (as @ x # bs) \<Longrightarrow> flist m x (x # bs)"
  by (induction as arbitrary: p) auto

lemma flist_head_notin_tail:
  assumes "flist m p (x # xs)"
  shows "x \<notin> set xs"
proof
  assume "x \<in> set xs"
  then obtain as bs where xs: "xs = as @ x # bs" by (auto simp: in_set_conv_decomp)
  have t: "flist m (load64 m x) xs" using assms by simp
  then have "flist m x (x # bs)" unfolding xs by (rule flist_suffix)
  then have "flist m (load64 m x) bs" by simp
  with t have "xs = bs" by (rule flist_unique)
  then show False using xs by simp
qed

lemma flist_distinct: "flist m p xs \<Longrightarrow> distinct xs"
proof (induction xs arbitrary: p)
  case Nil
  then show ?case by simp
next
  case (Cons x xs)
  from Cons.prems have "x \<notin> set xs" by (rule flist_head_notin_tail)
  moreover from Cons.prems have "flist m (load64 m x) xs" by simp
  then have "distinct xs" by (rule Cons.IH)
  ultimately show ?case by simp
qed

text \<open>Filling or relinking page \<open>x\<close> leaves a list that avoids \<open>x\<close> as it is.\<close>

lemma flist_memset_other:
  assumes "aligned x" "\<forall>y\<in>set ys. aligned y" "x \<notin> set ys"
  shows "flist (memset m x c PGSIZE) p ys = flist m p ys"
proof (rule flist_cong)
  fix y assume "y \<in> set ys"
  then have "aligned y" "x \<noteq> y" using assms by auto
  then show "load64 (memset m x c PGSIZE) y = load64 m y"
    using assms(1) by (simp add: load64_memset_other)
qed

lemma flist_store64_other:
  assumes "aligned x" "\<forall>y\<in>set ys. aligned y" "x \<notin> set ys"
  shows "flist (store64 m x v) p ys = flist m p ys"
proof (rule flist_cong)
  fix y assume "y \<in> set ys"
  then have "aligned y" "x \<noteq> y" using assms by auto
  then show "load64 (store64 m x v) y = load64 m y"
    using assms(1) by (simp add: load64_store64_other)
qed

lemma memset_inside: "k < n \<Longrightarrow> n \<le> 2 ^ 64 \<Longrightarrow> memset m p c n (p + of_nat k) = c"
  by (simp add: memset_def unat_of_nat)

lemma store64_outside: "8 \<le> k \<Longrightarrow> k < 2 ^ 64 \<Longrightarrow> store64 m p v (p + of_nat k) = m (p + of_nat k)"
  by (simp add: store64_def unat_of_nat)


lemma kalloc_from:
  assumes "(j = c \<and> freelist s c \<noteq> 0) \<or>
           (freelist s c = 0 \<and> j < n \<and> freelist s j \<noteq> 0 \<and> (\<forall>i<j. freelist s i = 0))"
  shows "kalloc n c s =
           (freelist s j,
            s\<lparr>freelist := (freelist s)(j := load64 (mem s) (freelist s j)),
              mem := memset (mem s) (freelist s j) 5 PGSIZE\<rparr>)"
  using assms
proof
  assume "j = c \<and> freelist s c \<noteq> 0"
  then show ?thesis by (simp add: kalloc_def Let_def)
next
  assume a: "freelist s c = 0 \<and> j < n \<and> freelist s j \<noteq> 0 \<and> (\<forall>i<j. freelist s i = 0)"
  then have jc: "j \<noteq> c" by auto
  have "kalloc_loop n c 0 s =
      (freelist s j, s\<lparr>freelist := (freelist s)(j := load64 (mem s) (freelist s j))\<rparr>)"
    using a jc by (intro kalloc_loop_first) auto
  then show ?thesis using a by (simp add: kalloc_def Let_def)
qed

lemma kalloc_zero_iff:
  assumes "c < n"
  shows "fst (kalloc n c s) = 0 \<longleftrightarrow> (\<forall>i<n. freelist s i = 0)"
proof (cases "freelist s c = 0")
  case False
  then show ?thesis using assms by (auto simp: kalloc_def Let_def)
next
  case True
  have "fst (kalloc n c s) = fst (kalloc_loop n c 0 s)"
    using True by (simp add: kalloc_def Let_def split: prod.splits)
  also have "\<dots> = 0 \<longleftrightarrow> (\<forall>i. 0 \<le> i \<and> i < n \<and> i \<noteq> c \<longrightarrow> freelist s i = 0)"
    by (rule kalloc_loop_zero_iff)
  finally show ?thesis using True by auto
qed

lemma kalloc_exhausted:
  assumes "\<forall>i<n. freelist s i = 0" "c < n"
  shows "kalloc n c s = (0, s)"
proof -
  have "kalloc_loop n c 0 s = (0, s)" using assms by (intro kalloc_loop_none) auto
  then show ?thesis using assms by (simp add: kalloc_def Let_def)
qed

lemma pop_list:
  assumes "flist m x (x # xs)" "\<forall>y\<in>set (x # xs). aligned y"
  shows "flist (memset m x c PGSIZE) (load64 m x) xs"
proof -
  have "x \<notin> set xs" using assms(1) by (rule flist_head_notin_tail)
  then have "flist (memset m x c PGSIZE) (load64 m x) xs = flist m (load64 m x) xs"
    using assms(2) by (intro flist_memset_other) auto
  then show ?thesis using assms(1) by simp
qed

text \<open>
  Claim C2. \<^verbatim>\<open>kalloc\<close> pops the head of the caller's own list when that list is
  non-empty; otherwise it pops the head of the first non-empty list in ascending
  index order. In both cases (the popped partition is \<open>j\<close>) the result is the old
  head of list \<open>j\<close>, the list of \<open>j\<close> loses exactly its head, and every other
  list that does not contain the popped page is as before. The result is the
  null pointer exactly when every list is empty, and then the state is returned
  unchanged: the function is total, it neither waits nor retries.
\<close>

theorem kalloc_pops_own_then_first_nonempty:
  "((j = c \<and> freelist s c \<noteq> 0) \<or>
    (freelist s c = 0 \<and> j < n \<and> freelist s j \<noteq> 0 \<and> (\<forall>i<j. freelist s i = 0)) \<longrightarrow>
      kalloc n c s =
        (freelist s j,
         s\<lparr>freelist := (freelist s)(j := load64 (mem s) (freelist s j)),
           mem := memset (mem s) (freelist s j) 5 PGSIZE\<rparr>) \<and>
      (\<forall>xs. flist (mem s) (freelist s j) xs \<and> (\<forall>y\<in>set xs. aligned y) \<longrightarrow>
         xs \<noteq> [] \<and> fst (kalloc n c s) = hd xs \<and>
         flist (mem (snd (kalloc n c s))) (freelist (snd (kalloc n c s)) j) (tl xs)) \<and>
      (\<forall>i ys. i \<noteq> j \<and> flist (mem s) (freelist s i) ys \<and> (\<forall>y\<in>set ys. aligned y) \<and>
         aligned (freelist s j) \<and> freelist s j \<notin> set ys \<longrightarrow>
         flist (mem (snd (kalloc n c s))) (freelist (snd (kalloc n c s)) i) ys)) \<and>
   (c < n \<longrightarrow> (fst (kalloc n c s) = 0 \<longleftrightarrow> (\<forall>i<n. freelist s i = 0))) \<and>
   (c < n \<and> (\<forall>i<n. freelist s i = 0) \<longrightarrow> kalloc n c s = (0, s))"
proof (intro conjI impI allI)
  assume src: "(j = c \<and> freelist s c \<noteq> 0) \<or>
    (freelist s c = 0 \<and> j < n \<and> freelist s j \<noteq> 0 \<and> (\<forall>i<j. freelist s i = 0))"
  then have nz: "freelist s j \<noteq> 0" by auto
  note eq = kalloc_from [OF src]
  show "kalloc n c s =
        (freelist s j,
         s\<lparr>freelist := (freelist s)(j := load64 (mem s) (freelist s j)),
           mem := memset (mem s) (freelist s j) 5 PGSIZE\<rparr>)" by (rule eq)
  {
    fix xs assume l: "flist (mem s) (freelist s j) xs \<and> (\<forall>y\<in>set xs. aligned y)"
    then obtain x xs' where xs: "xs = x # xs'" "x = freelist s j"
      using nz by (cases xs) auto
    show "xs \<noteq> []" using xs by simp
    show "fst (kalloc n c s) = hd xs" using xs eq by simp
    have "flist (memset (mem s) x 5 PGSIZE) (load64 (mem s) x) xs'"
      using l xs by (intro pop_list) auto
    then show "flist (mem (snd (kalloc n c s))) (freelist (snd (kalloc n c s)) j) (tl xs)"
      using xs eq by simp
  }
  {
    fix i ys
    assume o: "i \<noteq> j \<and> flist (mem s) (freelist s i) ys \<and> (\<forall>y\<in>set ys. aligned y) \<and>
         aligned (freelist s j) \<and> freelist s j \<notin> set ys"
    then have "flist (memset (mem s) (freelist s j) 5 PGSIZE) (freelist s i) ys"
      by (simp add: flist_memset_other)
    then show "flist (mem (snd (kalloc n c s))) (freelist (snd (kalloc n c s)) i) ys"
      using o eq by simp
  }
next
  assume "c < n"
  then show "fst (kalloc n c s) = 0 \<longleftrightarrow> (\<forall>i<n. freelist s i = 0)" by (rule kalloc_zero_iff)
next
  assume "c < n \<and> (\<forall>i<n. freelist s i = 0)"
  then show "kalloc n c s = (0, s)" by (simp add: kalloc_exhausted)
qed

lemma load64_zero: "load64 (\<lambda>a. 0) p = 0"
  by (simp add: load64_def)

theorem kalloc_pops_own_then_first_nonempty_witness:
  "fst (kalloc 3 0 kmem1) = 0x80001000 \<and>
   flist (mem (snd (kalloc 3 0 kmem1))) (freelist (snd (kalloc 3 0 kmem1)) 1) [] \<and>
   flist (mem (snd (kalloc 3 0 kmem1))) (freelist (snd (kalloc 3 0 kmem1)) 2) [] \<and>
   fst (kalloc 3 0 kmem0) = 0 \<and> kalloc 3 0 kmem0 = (0, kmem0)"
proof -
  have a: "aligned 0x80001000" by (simp add: aligned_def PGSIZE_def)
  have h: "freelist kmem1 1 = 0x80001000" by (simp add: kmem1_def)
  have f1: "flist (mem kmem1) (freelist kmem1 1) [0x80001000] \<and>
      (\<forall>y\<in>set [0x80001000]. aligned y)"
    using a by (simp add: kmem1_def load64_zero)
  have f2: "(2::nat) \<noteq> 1 \<and> flist (mem kmem1) (freelist kmem1 2) [] \<and> (\<forall>y\<in>set []. aligned y) \<and>
         aligned (freelist kmem1 1) \<and> freelist kmem1 1 \<notin> set []"
    using a by (simp add: kmem1_def)
  have src: "(1 = (0::nat) \<and> freelist kmem1 0 \<noteq> 0) \<or>
     (freelist kmem1 0 = 0 \<and> (1::nat) < 3 \<and> freelist kmem1 1 \<noteq> 0 \<and>
      (\<forall>i<1. freelist kmem1 i = 0))"
    by (simp add: kmem1_def)
  have e: "(0::nat) < 3 \<and> (\<forall>i<3. freelist kmem0 i = 0)" by (simp add: kmem0_def)
  note t1 = kalloc_pops_own_then_first_nonempty [of 1 0 kmem1 3, THEN conjunct1, rule_format, OF src]
  note t0 = kalloc_pops_own_then_first_nonempty [of 0 0 kmem0 3, THEN conjunct2, THEN conjunct2, rule_format, OF e]
  note l1 = t1 [THEN conjunct2, THEN conjunct1, rule_format, OF f1]
  note l2 = t1 [THEN conjunct2, THEN conjunct2, rule_format, OF f2]
  show ?thesis using l1 l2 t0 by simp
qed


lemma kfree_valid:
  assumes "\<not> (unat pa mod PGSIZE \<noteq> 0 \<or> pa < kend \<or> PHYSTOP \<le> pa)"
  shows "kfree kend PHYSTOP c pa s =
     Inr (s\<lparr>mem := store64 (memset (mem s) pa 1 PGSIZE) pa (freelist s c),
            freelist := (freelist s)(c := pa)\<rparr>)"
  using assms by (simp add: kfree_def Let_def)

lemma push_list:
  assumes "flist m p xs" "\<forall>y\<in>set xs. aligned y" "aligned pa" "pa \<notin> set xs"
  shows "flist (store64 (memset m pa c PGSIZE) pa v) p xs"
  using assms by (simp add: flist_store64_other flist_memset_other)

text \<open>
  Claim C5, as stated, fails for a valid frame that is on a free list already:
  \<^verbatim>\<open>kfree\<close> does not look at the lists, and the link it writes into the page is the
  link of every list the page is on. With page 0x80003000 in the list of CPU 0
  and page 0x80001000 in the list of CPU 1, \<^verbatim>\<open>kfree(0x80001000)\<close> on CPU 0 does not
  panic and turns the list of CPU 1 from [0x80001000] into
  [0x80001000, 0x80003000].
\<close>

theorem kfree_listed_frame_counterexample:
  "\<not> (unat (0x80001000 :: addr) mod PGSIZE \<noteq> 0 \<or> (0x80001000 :: addr) < 0x80000000 \<or>
      (0x88000000 :: addr) \<le> 0x80001000) \<and>
   flist (mem kmem2) (freelist kmem2 0) [0x80003000] \<and>
   flist (mem kmem2) (freelist kmem2 1) [0x80001000] \<and>
   (\<exists>s'. kfree 0x80000000 0x88000000 0 0x80001000 kmem2 = Inr s' \<and>
      flist (mem s') (freelist s' 0) [0x80001000, 0x80003000] \<and>
      flist (mem s') (freelist s' 1) [0x80001000, 0x80003000] \<and>
      \<not> flist (mem s') (freelist s' 1) [0x80001000])"
proof -
  let ?pa = "0x80001000 :: addr"
  let ?m = "store64 (memset (\<lambda>a. 0) ?pa 1 PGSIZE) ?pa 0x80003000"
  have v: "\<not> (unat ?pa mod PGSIZE \<noteq> 0 \<or> ?pa < 0x80000000 \<or> (0x88000000 :: addr) \<le> ?pa)"
    by (simp add: PGSIZE_def)
  have a: "aligned ?pa" "aligned 0x80003000" by (simp_all add: aligned_def PGSIZE_def)
  have b: "flist (mem kmem2) (freelist kmem2 0) [0x80003000]"
    "flist (mem kmem2) (freelist kmem2 1) [0x80001000]"
    by (simp_all add: kmem2_def load64_zero)
  have r: "flist ?m 0x80003000 [0x80003000]"
    using push_list [of "\<lambda>a. 0" "0x80003000" "[0x80003000]" ?pa 1 "0x80003000"] a
    by (simp add: load64_zero)
  have l: "flist ?m ?pa [?pa, 0x80003000]"
    using r by (simp add: load64_store64)
  then have n: "\<not> flist ?m ?pa [?pa]"
    using flist_unique by blast
  have "kfree 0x80000000 0x88000000 0 ?pa kmem2 =
      Inr (kmem2\<lparr>mem := store64 (memset (mem kmem2) ?pa 1 PGSIZE) ?pa (freelist kmem2 0),
                 freelist := (freelist kmem2)(0 := ?pa)\<rparr>)"
    by (rule kfree_valid [OF v])
  then show ?thesis using v b l n by (simp add: kmem2_def)
qed

text \<open>
  Claim C5, amended. \<^verbatim>\<open>kfree\<close> panics exactly when the address is not page-aligned,
  is below \<^verbatim>\<open>end\<close> or is at or above \<^verbatim>\<open>PHYSTOP\<close>. For a valid frame it returns a
  state in which the frame is the head of the caller's list, its link is the old
  head, and the head pointers of all other lists are unchanged. If moreover the
  frame is not null and is not on a list (of page-aligned frames) already, then
  after the call that list is the same list as before when it belongs to another
  CPU, and the old list with the frame in front when it is the caller's.
\<close>

theorem kfree_panics_iff_invalid_else_pushes:
  "((\<exists>msg. kfree kend PHYSTOP c pa s = Inl msg) \<longleftrightarrow>
      (unat pa mod PGSIZE \<noteq> 0 \<or> pa < kend \<or> PHYSTOP \<le> pa)) \<and>
   (\<not> (unat pa mod PGSIZE \<noteq> 0 \<or> pa < kend \<or> PHYSTOP \<le> pa) \<longrightarrow>
      (\<exists>s'. kfree kend PHYSTOP c pa s = Inr s' \<and>
         freelist s' c = pa \<and> load64 (mem s') pa = freelist s c \<and>
         (\<forall>i. i \<noteq> c \<longrightarrow> freelist s' i = freelist s i) \<and>
         (\<forall>i xs. pa \<noteq> 0 \<and> flist (mem s) (freelist s i) xs \<and> (\<forall>y\<in>set xs. aligned y) \<and>
                 pa \<notin> set xs \<longrightarrow>
            flist (mem s') (freelist s' i) (if i = c then pa # xs else xs))))"
proof (intro conjI impI)
  show "(\<exists>msg. kfree kend PHYSTOP c pa s = Inl msg) \<longleftrightarrow>
      (unat pa mod PGSIZE \<noteq> 0 \<or> pa < kend \<or> PHYSTOP \<le> pa)"
    by (auto simp: kfree_def Let_def)
next
  assume v: "\<not> (unat pa mod PGSIZE \<noteq> 0 \<or> pa < kend \<or> PHYSTOP \<le> pa)"
  then have al: "aligned pa" by (simp add: aligned_def)
  let ?s' = "s\<lparr>mem := store64 (memset (mem s) pa 1 PGSIZE) pa (freelist s c),
            freelist := (freelist s)(c := pa)\<rparr>"
  have eq: "kfree kend PHYSTOP c pa s = Inr ?s'" by (rule kfree_valid [OF v])
  have "\<forall>i xs. pa \<noteq> 0 \<and> flist (mem s) (freelist s i) xs \<and> (\<forall>y\<in>set xs. aligned y) \<and>
                 pa \<notin> set xs \<longrightarrow>
            flist (mem ?s') (freelist ?s' i) (if i = c then pa # xs else xs)"
  proof (intro allI impI)
    fix i xs
    assume h: "pa \<noteq> 0 \<and> flist (mem s) (freelist s i) xs \<and> (\<forall>y\<in>set xs. aligned y) \<and>
                 pa \<notin> set xs"
    then have "flist (store64 (memset (mem s) pa 1 PGSIZE) pa (freelist s c)) (freelist s i) xs"
      using al by (intro push_list) auto
    then show "flist (mem ?s') (freelist ?s' i) (if i = c then pa # xs else xs)"
      using h by (auto simp: load64_store64)
  qed
  then show "\<exists>s'. kfree kend PHYSTOP c pa s = Inr s' \<and>
         freelist s' c = pa \<and> load64 (mem s') pa = freelist s c \<and>
         (\<forall>i. i \<noteq> c \<longrightarrow> freelist s' i = freelist s i) \<and>
         (\<forall>i xs. pa \<noteq> 0 \<and> flist (mem s) (freelist s i) xs \<and> (\<forall>y\<in>set xs. aligned y) \<and>
                 pa \<notin> set xs \<longrightarrow>
            flist (mem s') (freelist s' i) (if i = c then pa # xs else xs))"
    unfolding eq by (intro exI [of _ ?s']) (simp add: load64_store64)
qed

theorem kfree_panics_iff_invalid_else_pushes_witness:
  "(\<exists>s'. kfree 0x80000000 0x88000000 0 0x80002000 kmem1 = Inr s' \<and>
      freelist s' 0 = 0x80002000 \<and> freelist s' 1 = 0x80001000 \<and>
      flist (mem s') (freelist s' 0) [0x80002000] \<and>
      flist (mem s') (freelist s' 1) [0x80001000]) \<and>
   (\<exists>msg. kfree 0x80000000 0x88000000 0 0x80002001 kmem1 = Inl msg)"
proof -
  have v: "\<not> (unat (0x80002000 :: addr) mod PGSIZE \<noteq> 0 \<or> (0x80002000 :: addr) < 0x80000000
      \<or> (0x88000000 :: addr) \<le> 0x80002000)"
    by (simp add: PGSIZE_def)
  have nv: "unat (0x80002001 :: addr) mod PGSIZE \<noteq> 0 \<or> (0x80002001 :: addr) < 0x80000000
      \<or> (0x88000000 :: addr) \<le> 0x80002001"
    by (simp add: PGSIZE_def)
  have a: "aligned 0x80001000" by (simp add: aligned_def PGSIZE_def)
  have f0: "(0x80002000 :: addr) \<noteq> 0 \<and> flist (mem kmem1) (freelist kmem1 0) [] \<and>
      (\<forall>y\<in>set []. aligned y) \<and> 0x80002000 \<notin> set []"
    by (simp add: kmem1_def)
  have f1: "(0x80002000 :: addr) \<noteq> 0 \<and> flist (mem kmem1) (freelist kmem1 1) [0x80001000] \<and>
      (\<forall>y\<in>set [0x80001000]. aligned y) \<and> 0x80002000 \<notin> set [0x80001000 :: addr]"
    using a by (simp add: kmem1_def load64_zero)
  note t = kfree_panics_iff_invalid_else_pushes [of "0x80000000" "0x88000000" 0 "0x80002000" kmem1,
      THEN conjunct2, rule_format, OF v]
  note p = kfree_panics_iff_invalid_else_pushes [of "0x80000000" "0x88000000" 0 "0x80002001" kmem1,
      THEN conjunct1, THEN iffD2, OF nv]
  from t obtain s' where s': "kfree 0x80000000 0x88000000 0 0x80002000 kmem1 = Inr s'"
    "freelist s' 0 = 0x80002000" "\<forall>i. i \<noteq> 0 \<longrightarrow> freelist s' i = freelist kmem1 i"
    "\<forall>i xs. 0x80002000 \<noteq> (0::addr) \<and> flist (mem kmem1) (freelist kmem1 i) xs \<and> (\<forall>y\<in>set xs. aligned y) \<and>
                 0x80002000 \<notin> set xs \<longrightarrow>
            flist (mem s') (freelist s' i) (if i = 0 then 0x80002000 # xs else xs)"
    by blast
  have "freelist s' 1 = 0x80001000" using s'(3) by (simp add: kmem1_def)
  moreover have "flist (mem s') (freelist s' 0) [0x80002000]"
    using s'(4) [rule_format, OF f0] by simp
  moreover have "flist (mem s') (freelist s' 1) [0x80001000]"
    using s'(4) [rule_format, OF f1] by simp
  ultimately show ?thesis using s'(1,2) p by blast
qed

text \<open>
  Claim C6, as stated, fails for \<^verbatim>\<open>kfree\<close>: the link \<^verbatim>\<open>r->next\<close> is written into the
  first eight bytes of the page after the fill. Freeing page 0x80002000 into an
  empty list leaves the byte at its first address 0, not 1.
\<close>

theorem kfree_poison_counterexample:
  "\<not> isl (kfree 0x80000000 0x88000000 0 0x80002000 kmem1) \<and>
   mem (projr (kfree 0x80000000 0x88000000 0 0x80002000 kmem1)) 0x80002000 = 0"
  by (simp add: kfree_def Let_def PGSIZE_def kmem1_def store64_def)

text \<open>
  Claim C6, amended. After \<^verbatim>\<open>kfree\<close> of a valid frame every byte of the page from
  offset 8 on is the byte 1, and the first eight bytes hold the free-list link
  (the old head of the caller's list). After a successful \<^verbatim>\<open>kalloc\<close> every byte
  of the returned page is the byte 5. The two fill bytes are non-zero and
  different.
\<close>

theorem poison_after_kfree_and_kalloc:
  "(\<forall>s'. kfree kend PHYSTOP c pa s = Inr s' \<longrightarrow>
      (\<forall>k. 8 \<le> k \<and> k < PGSIZE \<longrightarrow> mem s' (pa + of_nat k) = 1) \<and>
      load64 (mem s') pa = freelist s c) \<and>
   (fst (kalloc n c s) \<noteq> 0 \<longrightarrow>
      (\<forall>k<PGSIZE. mem (snd (kalloc n c s)) (fst (kalloc n c s) + of_nat k) = 5)) \<and>
   (1 :: 8 word) \<noteq> 0 \<and> (5 :: 8 word) \<noteq> 0 \<and> (1 :: 8 word) \<noteq> 5"
proof (intro conjI allI impI)
  fix s' k
  assume r: "kfree kend PHYSTOP c pa s = Inr s'"
  then have v: "\<not> (unat pa mod PGSIZE \<noteq> 0 \<or> pa < kend \<or> PHYSTOP \<le> pa)"
    by (auto simp: kfree_def Let_def split: if_splits)
  have s': "s' = s\<lparr>mem := store64 (memset (mem s) pa 1 PGSIZE) pa (freelist s c),
            freelist := (freelist s)(c := pa)\<rparr>"
    using r kfree_valid [OF v, of c s] by simp
  show "load64 (mem s') pa = freelist s c" unfolding s' by (simp add: load64_store64)
  assume k: "8 \<le> k \<and> k < PGSIZE"
  then have "store64 (memset (mem s) pa 1 PGSIZE) pa (freelist s c) (pa + of_nat k)
      = memset (mem s) pa 1 PGSIZE (pa + of_nat k)"
    by (intro store64_outside) (simp_all add: PGSIZE_def)
  also have "\<dots> = 1" using k by (intro memset_inside) (simp_all add: PGSIZE_def)
  finally show "mem s' (pa + of_nat k) = 1" unfolding s' by simp
next
  fix k
  assume nz: "fst (kalloc n c s) \<noteq> 0" and k: "k < PGSIZE"
  obtain r s1 where rs: "(if freelist s c \<noteq> 0
             then (freelist s c, s\<lparr>freelist := (freelist s)(c := load64 (mem s) (freelist s c))\<rparr>)
             else kalloc_loop n c 0 s) = (r, s1)"
    by (cases "(if freelist s c \<noteq> 0
             then (freelist s c, s\<lparr>freelist := (freelist s)(c := load64 (mem s) (freelist s c))\<rparr>)
             else kalloc_loop n c 0 s)") auto
  have eq: "kalloc n c s = (if r \<noteq> 0 then (r, s1\<lparr>mem := memset (mem s1) r 5 PGSIZE\<rparr>) else (r, s1))"
    unfolding kalloc_def Let_def rs by simp
  with nz have "r \<noteq> 0" by (auto split: if_splits)
  then have "kalloc n c s = (r, s1\<lparr>mem := memset (mem s1) r 5 PGSIZE\<rparr>)" using eq by simp
  then show "mem (snd (kalloc n c s)) (fst (kalloc n c s) + of_nat k) = 5"
    using k by (simp add: memset_inside PGSIZE_def)
qed simp_all


lemma kalloc_kmem1: "fst (kalloc 3 0 kmem1) = 0x80001000"
  by (simp add: kalloc_def kalloc_loop.simps kmem1_def Let_def)

theorem poison_after_kfree_and_kalloc_witness:
  "mem (projr (kfree 0x80000000 0x88000000 0 0x80002000 kmem1)) (0x80002000 + of_nat 8) = 1 \<and>
   load64 (mem (projr (kfree 0x80000000 0x88000000 0 0x80002000 kmem1))) 0x80002000 = 0 \<and>
   mem (snd (kalloc 3 0 kmem1)) (fst (kalloc 3 0 kmem1) + of_nat 4095) = 5"
proof -
  have r: "kfree 0x80000000 0x88000000 0 0x80002000 kmem1 =
      Inr (projr (kfree 0x80000000 0x88000000 0 0x80002000 kmem1))"
    by (simp add: kfree_def Let_def PGSIZE_def)
  have k: "(8::nat) \<le> 8 \<and> 8 < PGSIZE" by (simp add: PGSIZE_def)
  have nz: "fst (kalloc 3 0 kmem1) \<noteq> 0" by (simp add: kalloc_kmem1)
  have l: "(4095::nat) < PGSIZE" by (simp add: PGSIZE_def)
  note t = poison_after_kfree_and_kalloc [of "0x80000000" "0x88000000" 0 "0x80002000" kmem1 3]
  note a = t [THEN conjunct1, rule_format, OF r]
  note b = t [THEN conjunct2, THEN conjunct1, rule_format, OF nz l]
  show ?thesis using a [THEN conjunct1, rule_format, OF k] a [THEN conjunct2] b
    by (simp add: kmem1_def)
qed

section \<open>Properties of the buffer cache\<close>

subsection \<open>Paths\<close>

lemma path_append: "path f a (xs @ y # ys) z = (path f a xs y \<and> path f y ys z)"
  by (induction xs arbitrary: a) auto

lemma path_cong: "(\<And>x. x \<in> set (a # xs) \<Longrightarrow> g x = f x) \<Longrightarrow> path g a xs z = path f a xs z"
  by (induction xs arbitrary: a) auto

lemma path_upd: "u \<noteq> a \<Longrightarrow> u \<notin> set xs \<Longrightarrow> path (f(u := v)) a xs z = path f a xs z"
  by (rule path_cong) auto

lemma path_first: "path f a xs z \<Longrightarrow> f a = hd (xs @ [z])"
  by (cases xs) auto

lemma path_last: "path f a xs z \<Longrightarrow> f (last (a # xs)) = z"
  by (induction xs arbitrary: a) auto

lemma path_redirect:
  "path f a xs z \<Longrightarrow> distinct (a # xs) \<Longrightarrow> path (f(last (a # xs) := w)) a xs w"
proof (induction xs arbitrary: a)
  case Nil
  then show ?case by simp
next
  case (Cons x xs)
  then have "a \<noteq> last (x # xs)" by (metis distinct.simps(2) last_in_set list.distinct(1))
  with Cons show ?case by simp
qed

lemma path_bypass:
  "path f b ys z \<Longrightarrow> a \<notin> set ys \<Longrightarrow> path (f(a := f b)) a ys z"
  by (cases ys) (auto simp: path_upd)

lemma path_skip:
  "path f a (xs @ b # ys) z \<Longrightarrow> distinct (a # xs @ b # ys) \<Longrightarrow>
   path (f(last (a # xs) := f b)) a (xs @ ys) z"
proof (induction xs arbitrary: a)
  case Nil
  then have "path f b ys z" "a \<notin> set ys" by auto
  then have "path (f(a := f b)) a ys z" by (rule path_bypass)
  then show ?case by (simp del: fun_upd_apply)
next
  case (Cons x xs)
  have px: "path f x (xs @ b # ys) z" "f a = x" "distinct (x # xs @ b # ys)"
    using Cons.prems by auto
  have "last (x # xs) \<in> set (x # xs)" by (rule last_in_set) simp
  then have ne: "a \<noteq> last (x # xs)" using Cons.prems(2) by auto
  have ih: "path (f(last (x # xs) := f b)) x (xs @ ys) z"
    by (rule Cons.IH [OF px(1) px(3)])
  have hd: "(f(last (x # xs) := f b)) a = x" using px(2) ne by simp
  have l: "last (a # x # xs) = last (x # xs)" by simp
  show ?case unfolding l append_Cons path.simps using hd ih by (rule conjI)
qed

lemma path_push:
  "path f a xs z \<Longrightarrow> b \<noteq> a \<Longrightarrow> b \<notin> set xs \<Longrightarrow> a \<notin> set xs \<Longrightarrow>
   path ((f(b := f a))(a := b)) a (b # xs) z"
  by (cases xs) (auto simp: path_upd)


lemma path_range: "path f a xs z \<Longrightarrow> x \<in> set (a # xs) \<Longrightarrow> f x \<in> set (xs @ [z])"
  by (induction xs arbitrary: a) auto

subsection \<open>Pointer fields after the primitive updates\<close>

lemma bufs_upd [simp]: "bufs (upd b f s) = (bufs s)(b := f (bufs s b))"
  and disk_upd [simp]: "disk (upd b f s) = disk s"
  and io_upd [simp]: "io (upd b f s) = io s"
  by (simp_all add: upd_def)

lemma nx_upd_meta: "(\<And>x. nxt (f x) = nxt x) \<Longrightarrow> nx (upd b f s) = nx s"
  by (rule ext) (simp add: nx_def)

lemma pv_upd_meta: "(\<And>x. prev (f x) = prev x) \<Longrightarrow> pv (upd b f s) = pv s"
  by (rule ext) (simp add: pv_def)

lemma nx_set_next: "nx (set_next b v s) = (nx s)(b := v)"
  and pv_set_next: "pv (set_next b v s) = pv s"
  and meta_set_next: "meta (set_next b v s) = meta s"
  and nx_set_prev: "nx (set_prev b v s) = nx s"
  and pv_set_prev: "pv (set_prev b v s) = (pv s)(b := v)"
  and meta_set_prev: "meta (set_prev b v s) = meta s"
  by (rule ext; simp add: nx_def pv_def meta_def set_next_def set_prev_def)+

lemma disk_set [simp]: "disk (set_next b v s) = disk s" "disk (set_prev b v s) = disk s"
  "io (set_next b v s) = io s" "io (set_prev b v s) = io s"
  by (simp_all add: set_next_def set_prev_def)

lemma nx_unlink: "nx (unlink b s) = (nx s)(pv s b := nx s b)"
proof -
  have "nxt (bufs (set_prev (nx s b) (pv s b) s) b) = nx s b"
    by (simp add: set_prev_def nx_def)
  moreover have "prev (bufs (set_prev (nx s b) (pv s b) s) b) = pv s b"
    by (simp add: set_prev_def pv_def nx_def)
  ultimately show ?thesis
    by (simp add: unlink_def Let_def nx_set_next nx_set_prev flip: nx_def pv_def)
qed

lemma pv_unlink: "pv (unlink b s) = (pv s)(nx s b := pv s b)"
  by (simp add: unlink_def Let_def pv_set_next pv_set_prev flip: nx_def pv_def)

lemma meta_unlink: "meta (unlink b s) = meta s"
  by (simp add: unlink_def Let_def meta_set_next meta_set_prev)

lemma disk_unlink [simp]: "disk (unlink b s) = disk s" "io (unlink b s) = io s"
  by (simp_all add: unlink_def Let_def)

lemma nx_push_front: "nx (push_front h b s) = ((nx s)(b := nx s h))(h := b)"
  by (simp add: push_front_def Let_def nx_set_next nx_set_prev flip: nx_def pv_def)

lemma pv_push_front: "pv (push_front h b s) = ((pv s)(b := h))(nx s h := b)"
proof -
  have "nxt (bufs (set_prev b h (set_next b (nx s h) s)) h) = nx s h"
    by (simp add: set_prev_def set_next_def nx_def)
  then show ?thesis
    by (simp add: push_front_def Let_def pv_set_next pv_set_prev flip: nx_def pv_def)
qed

lemma meta_push_front: "meta (push_front h b s) = meta s"
  by (simp add: push_front_def Let_def meta_set_next meta_set_prev)

lemma disk_push_front [simp]: "disk (push_front h b s) = disk s" "io (push_front h b s) = io s"
  by (simp_all add: push_front_def Let_def)


subsection \<open>Rings: unlinking and inserting at the head\<close>

lemma ring_nodes:
  assumes "ring s i js" "x \<in> insert (Hashbucket i) (Buffer ` set js)"
  shows "nx s x \<in> insert (Hashbucket i) (Buffer ` set js)"
    and "pv s x \<in> insert (Hashbucket i) (Buffer ` set js)"
proof -
  have "path (nx s) (Hashbucket i) (map Buffer js) (Hashbucket i)"
    using assms(1) by (simp add: ring_def)
  from path_range [OF this, of x] assms(2)
  show "nx s x \<in> insert (Hashbucket i) (Buffer ` set js)" by auto
  have "path (pv s) (Hashbucket i) (rev (map Buffer js)) (Hashbucket i)"
    using assms(1) by (simp add: ring_def)
  from path_range [OF this, of x] assms(2)
  show "pv s x \<in> insert (Hashbucket i) (Buffer ` set js)" by auto
qed

lemma ring_frame:
  assumes "\<And>x. x \<in> insert (Hashbucket k) (Buffer ` set ks) \<Longrightarrow> nx t x = nx s x \<and> pv t x = pv s x"
  shows "ring t k ks = ring s k ks"
proof -
  have "path (nx t) (Hashbucket k) (map Buffer ks) (Hashbucket k) =
        path (nx s) (Hashbucket k) (map Buffer ks) (Hashbucket k)"
    by (rule path_cong) (use assms in auto)
  moreover have "path (pv t) (Hashbucket k) (rev (map Buffer ks)) (Hashbucket k) =
        path (pv s) (Hashbucket k) (rev (map Buffer ks)) (Hashbucket k)"
    by (rule path_cong) (use assms in auto)
  ultimately show ?thesis by (simp add: ring_def)
qed

lemma distinct_ring_nodes:
  "distinct js \<Longrightarrow> distinct (Hashbucket i # map Buffer js)"
  by (auto simp: distinct_map inj_on_def)

lemma ring_links:
  assumes "ring s i (as @ j # bs)"
  shows "pv s (Buffer j) = last (Hashbucket i # map Buffer as)"
    and "nx s (Buffer j) = last (Hashbucket i # rev (map Buffer bs))"
proof -
  let ?h = "Hashbucket i"
  have n: "path (nx s) ?h (map Buffer as @ Buffer j # map Buffer bs) ?h"
    and p: "path (pv s) ?h (rev (map Buffer bs) @ Buffer j # rev (map Buffer as)) ?h"
    using assms by (simp_all add: ring_def)
  from p have "path (pv s) (Buffer j) (rev (map Buffer as)) ?h" by (simp add: path_append)
  then have "pv s (Buffer j) = hd (rev (map Buffer as) @ [?h])" by (rule path_first)
  also have "\<dots> = last (?h # map Buffer as)"
    by (cases as rule: rev_cases) simp_all
  finally show "pv s (Buffer j) = last (?h # map Buffer as)" .
  from n have "path (nx s) (Buffer j) (map Buffer bs) ?h" by (simp add: path_append)
  then have "nx s (Buffer j) = hd (map Buffer bs @ [?h])" by (rule path_first)
  also have "\<dots> = last (?h # rev (map Buffer bs))"
    by (cases bs) simp_all
  finally show "nx s (Buffer j) = last (?h # rev (map Buffer bs))" .
qed

lemma ring_unlink:
  assumes "ring s i (as @ j # bs)"
  shows "ring (unlink (Buffer j) s) i (as @ bs)"
proof -
  let ?h = "Hashbucket i"
  let ?b = "Buffer j"
  have d: "distinct (as @ j # bs)" using assms by (simp add: ring_def)
  have n: "path (nx s) ?h (map Buffer as @ ?b # map Buffer bs) ?h"
    and p: "path (pv s) ?h (rev (map Buffer bs) @ ?b # rev (map Buffer as)) ?h"
    using assms by (simp_all add: ring_def)
  have dn: "distinct (?h # map Buffer as @ ?b # map Buffer bs)"
    using distinct_ring_nodes [OF d, of i] by simp
  have dp: "distinct (?h # rev (map Buffer bs) @ ?b # rev (map Buffer as))"
    using dn by auto
  have "path ((nx s)(last (?h # map Buffer as) := nx s ?b)) ?h (map Buffer as @ map Buffer bs) ?h"
    by (rule path_skip [OF n dn])
  then have 1: "path (nx (unlink ?b s)) ?h (map Buffer (as @ bs)) ?h"
    by (simp only: nx_unlink ring_links(1) [OF assms] map_append)
  have "path ((pv s)(last (?h # rev (map Buffer bs)) := pv s ?b)) ?h
          (rev (map Buffer bs) @ rev (map Buffer as)) ?h"
    by (rule path_skip [OF p dp])
  then have 2: "path (pv (unlink ?b s)) ?h (rev (map Buffer (as @ bs))) ?h"
    by (simp only: pv_unlink ring_links(2) [OF assms] map_append rev_append)
  show ?thesis using 1 2 d by (simp add: ring_def)
qed

lemma ring_push:
  assumes "ring s i js" "j \<notin> set js"
  shows "ring (push_front (Hashbucket i) (Buffer j) s) i (j # js)"
proof -
  let ?h = "Hashbucket i"
  let ?b = "Buffer j"
  have d: "distinct js" using assms by (simp add: ring_def)
  have n: "path (nx s) ?h (map Buffer js) ?h"
    and p: "path (pv s) ?h (rev (map Buffer js)) ?h"
    using assms by (simp_all add: ring_def)
  have bn: "?b \<notin> set (map Buffer js)" using assms(2) by auto
  have hn: "?h \<notin> set (map Buffer js)" by auto
  have "path (((nx s)(?b := nx s ?h))(?h := ?b)) ?h (?b # map Buffer js) ?h"
    by (rule path_push [OF n _ bn hn]) simp
  then have 1: "path (nx (push_front ?h ?b s)) ?h (map Buffer (j # js)) ?h"
    by (simp only: nx_push_front list.map)
  have f: "nx s ?h = last (?h # rev (map Buffer js))"
    using path_first [OF n] by (cases js) simp_all
  have "path ((pv s)(?b := ?h)) ?h (rev (map Buffer js)) ?h"
    using p bn by (simp add: path_upd)
  moreover have "distinct (?h # rev (map Buffer js))"
    using distinct_ring_nodes [OF d, of i] by simp
  ultimately have r: "path (((pv s)(?b := ?h))(last (?h # rev (map Buffer js)) := ?b)) ?h
      (rev (map Buffer js)) ?b"
    by (rule path_redirect)
  have "last (?h # rev (map Buffer js)) \<in> set (?h # rev (map Buffer js))"
    by (rule last_in_set) simp
  then have "last (?h # rev (map Buffer js)) \<noteq> ?b"
    using bn by auto
  then have e: "(((pv s)(?b := ?h))(last (?h # rev (map Buffer js)) := ?b)) ?b = ?h"
    by simp
  have "path (((pv s)(?b := ?h))(last (?h # rev (map Buffer js)) := ?b)) ?h
      (rev (map Buffer js) @ [?b]) ?h"
    unfolding path_append path.simps using r e by (rule conjI)
  then have 2: "path (pv (push_front ?h ?b s)) ?h (rev (map Buffer (j # js))) ?h"
    by (simp only: pv_push_front f list.map rev.simps)
  show ?thesis using 1 2 d assms(2) by (simp add: ring_def)
qed


subsection \<open>All bucket lists together\<close>

lemma layoutD:
  assumes "layout S s L"
  shows "i < NBUCKETS \<Longrightarrow> ring s i (L i)"
    and "i < NBUCKETS \<Longrightarrow> k < NBUCKETS \<Longrightarrow> i \<noteq> k \<Longrightarrow> set (L i) \<inter> set (L k) = {}"
    and "i < NBUCKETS \<Longrightarrow> set (L i) \<subseteq> S"
    and "j \<in> S \<Longrightarrow> \<exists>i<NBUCKETS. j \<in> set (L i)"
    and "i < NBUCKETS \<Longrightarrow> distinct (L i)"
  using assms by (auto simp: layout_def ring_def)

lemma layout_meta:
  assumes "nx t = nx s" "pv t = pv s"
  shows "layout S t L = layout S s L"
  using assms by (simp add: layout_def ring_def)

lemma nodes_disjoint:
  assumes "set js \<inter> set ks = {}" "i \<noteq> k"
    and "x \<in> insert (Hashbucket i) (Buffer ` set js)"
  shows "x \<notin> insert (Hashbucket k) (Buffer ` set ks)"
  using assms by auto

lemma layout_unlink:
  assumes lay: "layout S s L" and i: "i < NBUCKETS" and j: "j \<in> set (L i)"
  shows "layout (S - {j}) (unlink (Buffer j) s) (L(i := remove1 j (L i)))"
proof -
  let ?b = "Buffer j"
  let ?t = "unlink ?b s"
  let ?L = "L(i := remove1 j (L i))"
  have ri: "ring s i (L i)" by (rule layoutD(1) [OF lay i])
  have di: "distinct (L i)" by (rule layoutD(5) [OF lay i])
  obtain as bs where sp: "L i = as @ j # bs" using j by (auto simp: in_set_conv_decomp)
  have jn: "j \<notin> set as" "j \<notin> set bs" using di sp by auto
  then have rm: "remove1 j (L i) = as @ bs" by (simp add: sp remove1_append)
  have bi: "?b \<in> insert (Hashbucket i) (Buffer ` set (L i))" using j by simp
  have pvb: "pv s ?b \<in> insert (Hashbucket i) (Buffer ` set (L i))"
    by (rule ring_nodes(2) [OF ri bi])
  have nxb: "nx s ?b \<in> insert (Hashbucket i) (Buffer ` set (L i))"
    by (rule ring_nodes(1) [OF ri bi])
  have rings: "ring ?t k (?L k)" if k: "k < NBUCKETS" for k
  proof (cases "k = i")
    case True
    have "ring ?t i (as @ bs)" using ri unfolding sp by (rule ring_unlink)
    then show ?thesis using True rm by simp
  next
    case False
    have dis: "set (L i) \<inter> set (L k) = {}" using layoutD(2) [OF lay i k] False by auto
    have "ring ?t k (L k) = ring s k (L k)"
    proof (rule ring_frame)
      fix x assume x: "x \<in> insert (Hashbucket k) (Buffer ` set (L k))"
      have "x \<noteq> pv s ?b" using nodes_disjoint [OF dis _ pvb, of k] False x by auto
      moreover have "x \<noteq> nx s ?b" using nodes_disjoint [OF dis _ nxb, of k] False x by auto
      ultimately show "nx ?t x = nx s x \<and> pv ?t x = pv s x"
        by (simp add: nx_unlink pv_unlink)
    qed
    then show ?thesis using False layoutD(1) [OF lay k] by simp
  qed
  have sub: "set (?L k) \<subseteq> set (L k)" for k
    using set_remove1_subset [of j "L i"] by auto
  have disj: "set (?L a) \<inter> set (?L k) = {}" if "a < NBUCKETS" "k < NBUCKETS" "a \<noteq> k" for a k
    using layoutD(2) [OF lay that] sub [of a] sub [of k] by blast
  have cover: "(\<Union>k<NBUCKETS. set (?L k)) = S - {j}"
  proof (intro set_eqI iffI)
    fix x assume "x \<in> (\<Union>k<NBUCKETS. set (?L k))"
    then obtain k where k: "k < NBUCKETS" "x \<in> set (?L k)" by auto
    then have xs: "x \<in> S" using sub [of k] layoutD(3) [OF lay k(1)] by auto
    have "x \<noteq> j"
    proof (cases "k = i")
      case True
      then show ?thesis using k(2) rm jn by auto
    next
      case False
      then show ?thesis using k sub [of k] layoutD(2) [OF lay i k(1)] j by auto
    qed
    with xs show "x \<in> S - {j}" by simp
  next
    fix x assume x: "x \<in> S - {j}"
    then obtain k where k: "k < NBUCKETS" "x \<in> set (L k)" using layoutD(4) [OF lay, of x] by auto
    then have "x \<in> set (?L k)" using x by (cases "k = i") auto
    with k(1) show "x \<in> (\<Union>k<NBUCKETS. set (?L k))" by blast
  qed
  show ?thesis unfolding layout_def using rings disj cover by blast
qed

lemma layout_push:
  assumes lay: "layout S s L" and h: "h < NBUCKETS" and j: "j \<notin> S"
  shows "layout (insert j S) (push_front (Hashbucket h) (Buffer j) s) (L(h := j # L h))"
proof -
  let ?b = "Buffer j"
  let ?t = "push_front (Hashbucket h) ?b s"
  let ?L = "L(h := j # L h)"
  have rh: "ring s h (L h)" by (rule layoutD(1) [OF lay h])
  have jn: "j \<notin> set (L k)" if "k < NBUCKETS" for k using layoutD(3) [OF lay that] j by auto
  have f: "nx s (Hashbucket h) \<in> insert (Hashbucket h) (Buffer ` set (L h))"
    by (rule ring_nodes(1) [OF rh]) simp
  have rings: "ring ?t k (?L k)" if k: "k < NBUCKETS" for k
  proof (cases "k = h")
    case True
    have "ring ?t h (j # L h)" using rh jn [OF h] by (rule ring_push)
    then show ?thesis using True by simp
  next
    case False
    have dis: "set (L h) \<inter> set (L k) = {}" using layoutD(2) [OF lay h k] False by auto
    have "ring ?t k (L k) = ring s k (L k)"
    proof (rule ring_frame)
      fix x assume x: "x \<in> insert (Hashbucket k) (Buffer ` set (L k))"
      have "x \<noteq> nx s (Hashbucket h)" using nodes_disjoint [OF dis _ f, of k] False x by auto
      moreover have "x \<noteq> ?b" using x jn [OF k] by auto
      moreover have "x \<noteq> Hashbucket h" using x False by auto
      ultimately show "nx ?t x = nx s x \<and> pv ?t x = pv s x"
        by (simp add: nx_push_front pv_push_front)
    qed
    then show ?thesis using False layoutD(1) [OF lay k] by simp
  qed
  have disj: "set (?L a) \<inter> set (?L k) = {}" if "a < NBUCKETS" "k < NBUCKETS" "a \<noteq> k" for a k
    using layoutD(2) [OF lay that] jn [OF that(1)] jn [OF that(2)] that(3) by auto
  have "(\<Union>k<NBUCKETS. set (?L k)) = insert j (\<Union>k<NBUCKETS. set (L k))"
    using h by (auto split: if_splits)
  then have cover: "(\<Union>k<NBUCKETS. set (?L k)) = insert j S"
    using lay by (simp add: layout_def)
  show ?thesis unfolding layout_def using rings disj cover by blast
qed


subsection \<open>The loops of bget on well-formed lists\<close>

lemma bget_cached_scan:
  assumes "path (nx s) a (map Buffer js) (Hashbucket i)"
  shows "bget_cached p d bn (Hashbucket i) (nx s a) s =
     Some (case find (cached s d bn) js of
             None \<Rightarrow> None
           | Some j \<Rightarrow> Some (acquiresleep p (Buffer j)
                        (upd (Buffer j) (\<lambda>x. x\<lparr>refcnt := refcnt x + 1\<rparr>) s)))"
  using assms
proof (induction js arbitrary: a)
  case Nil
  then have "nx s a = Hashbucket i" by simp
  then show ?case by (subst bget_cached.simps) simp
next
  case (Cons j js)
  then have a: "nx s a = Buffer j" and r: "path (nx s) (Buffer j) (map Buffer js) (Hashbucket i)"
    by simp_all
  show ?case
  proof (cases "cached s d bn j")
    case True
    then show ?thesis unfolding a
      by (subst bget_cached.simps) (simp add: cached_def)
  next
    case False
    have "bget_cached p d bn (Hashbucket i) (Buffer j) s =
          bget_cached p d bn (Hashbucket i) (nx s (Buffer j)) s"
      using False by (subst bget_cached.simps) (auto simp: cached_def nx_def)
    then show ?thesis unfolding a using Cons.IH [OF r] False by simp
  qed
qed

lemma bget_unused_scan:
  assumes "path (nx s) a (map Buffer js) (Hashbucket i)"
  shows "bget_unused p d bn (Hashbucket i) (nx s a) s =
     Some (case find (unused s) js of
             None \<Rightarrow> None
           | Some j \<Rightarrow> Some (acquiresleep p (Buffer j) (retag d bn (Buffer j) s)))"
  using assms
proof (induction js arbitrary: a)
  case Nil
  then have "nx s a = Hashbucket i" by simp
  then show ?case by (subst bget_unused.simps) simp
next
  case (Cons j js)
  then have a: "nx s a = Buffer j" and r: "path (nx s) (Buffer j) (map Buffer js) (Hashbucket i)"
    by simp_all
  show ?case
  proof (cases "unused s j")
    case True
    then show ?thesis unfolding a
      by (subst bget_unused.simps) (simp add: unused_def)
  next
    case False
    have "bget_unused p d bn (Hashbucket i) (Buffer j) s =
          bget_unused p d bn (Hashbucket i) (nx s (Buffer j)) s"
      using False by (subst bget_unused.simps) (auto simp: unused_def nx_def)
    then show ?thesis unfolding a using Cons.IH [OF r] False by simp
  qed
qed

lemma bget_lru_scan:
  assumes "path (pv s) a (map Buffer js) (Hashbucket i)"
  shows "bget_lru p d bn home (Hashbucket i) (pv s a) s =
     Some (case find (unused s) js of
             None \<Rightarrow> None
           | Some j \<Rightarrow> Some (acquiresleep p (Buffer j)
                (push_front (Hashbucket home) (Buffer j)
                   (unlink (Buffer j) (retag d bn (Buffer j) s)))))"
  using assms
proof (induction js arbitrary: a)
  case Nil
  then have "pv s a = Hashbucket i" by simp
  then show ?case by (subst bget_lru.simps) simp
next
  case (Cons j js)
  then have a: "pv s a = Buffer j" and r: "path (pv s) (Buffer j) (map Buffer js) (Hashbucket i)"
    by simp_all
  show ?case
  proof (cases "unused s j")
    case True
    then show ?thesis unfolding a
      by (subst bget_lru.simps) (simp add: unused_def)
  next
    case False
    have "bget_lru p d bn home (Hashbucket i) (Buffer j) s =
          bget_lru p d bn home (Hashbucket i) (pv s (Buffer j)) s"
      using False by (subst bget_lru.simps) (auto simp: unused_def pv_def)
    then show ?thesis unfolding a using Cons.IH [OF r] False by simp
  qed
qed

lemma bget_steal_scan:
  assumes "\<And>k. k < NBUCKETS \<Longrightarrow> ring s k (L k)"
  shows "bget_steal p d bn home i s =
     Some (case victim s L home [i..<NBUCKETS] of
             None \<Rightarrow> None
           | Some (k, j) \<Rightarrow> Some (acquiresleep p (Buffer j)
                (push_front (Hashbucket home) (Buffer j)
                   (unlink (Buffer j) (retag d bn (Buffer j) s)))))"
proof (induction "NBUCKETS - i" arbitrary: i)
  case 0
  then show ?case by (subst bget_steal.simps) simp
next
  case (Suc n)
  then have lt: "i < NBUCKETS" by simp
  have up: "[i..<NBUCKETS] = i # [Suc i..<NBUCKETS]" using lt by (rule upt_conv_Cons)
  have ih: "bget_steal p d bn home (Suc i) s =
     Some (case victim s L home [Suc i..<NBUCKETS] of
             None \<Rightarrow> None
           | Some (k, j) \<Rightarrow> Some (acquiresleep p (Buffer j)
                (push_front (Hashbucket home) (Buffer j)
                   (unlink (Buffer j) (retag d bn (Buffer j) s)))))"
    using Suc.hyps(2) by (intro Suc.hyps(1)) simp
  show ?case
  proof (cases "i = home")
    case True
    then show ?thesis unfolding up using lt ih by (subst bget_steal.simps) simp
  next
    case False
    have "path (pv s) (Hashbucket i) (map Buffer (rev (L i))) (Hashbucket i)"
      using assms [OF lt] by (simp add: ring_def rev_map)
    from bget_lru_scan [OF this, of p d bn home]
    have inner: "bget_lru p d bn home (Hashbucket i) (prev (bufs s (Hashbucket i))) s =
       Some (case find (unused s) (rev (L i)) of
             None \<Rightarrow> None
           | Some j \<Rightarrow> Some (acquiresleep p (Buffer j)
                (push_front (Hashbucket home) (Buffer j)
                   (unlink (Buffer j) (retag d bn (Buffer j) s)))))"
      by (simp add: pv_def)
    show ?thesis unfolding up using lt False ih inner
      by (subst bget_steal.simps) (simp split: option.splits)
  qed
qed

lemma bget_refines:
  assumes "\<And>k. k < NBUCKETS \<Longrightarrow> ring s k (L k)"
  shows "bget p d bn s = Some (acquire_spec L p d bn s)"
proof -
  let ?home = "unat (bn mod 13)"
  let ?h = "Hashbucket ?home"
  have lt: "?home < NBUCKETS"
    by (simp add: NBUCKETS_def unat_mod_distrib)
  have n: "path (nx s) ?h (map Buffer (L ?home)) ?h"
    using assms [OF lt] by (simp add: ring_def)
  have 1: "bget_cached p d bn ?h (nxt (bufs s ?h)) s =
     Some (case find (cached s d bn) (L ?home) of
             None \<Rightarrow> None
           | Some j \<Rightarrow> Some (acquiresleep p (Buffer j)
                        (upd (Buffer j) (\<lambda>x. x\<lparr>refcnt := refcnt x + 1\<rparr>) s)))"
    using bget_cached_scan [OF n, of p d bn] by (simp add: nx_def)
  have 2: "bget_unused p d bn ?h (nxt (bufs s ?h)) s =
     Some (case find (unused s) (L ?home) of
             None \<Rightarrow> None
           | Some j \<Rightarrow> Some (acquiresleep p (Buffer j) (retag d bn (Buffer j) s)))"
    using bget_unused_scan [OF n, of p d bn] by (simp add: nx_def)
  have 3: "bget_steal p d bn ?home 0 s =
     Some (case victim s L ?home [0..<NBUCKETS] of
             None \<Rightarrow> None
           | Some (k, j) \<Rightarrow> Some (acquiresleep p (Buffer j)
                (push_front ?h (Buffer j)
                   (unlink (Buffer j) (retag d bn (Buffer j) s)))))"
    by (rule bget_steal_scan) (rule assms)
  show ?thesis
    unfolding bget_def acquire_spec_def Let_def 1 2 3
    by (simp split: option.splits)
qed


subsection \<open>Initialisation\<close>

lemma nx_initsleeplock: "nx (initsleeplock b s) = nx s"
  and pv_initsleeplock: "pv (initsleeplock b s) = pv s"
  by (rule ext; simp add: nx_def pv_def initsleeplock_def)+

lemma binit_heads_links:
  "nx (binit_heads i s) (Hashbucket k) =
     (if i \<le> k \<and> k < NBUCKETS then Hashbucket k else nx s (Hashbucket k)) \<and>
   pv (binit_heads i s) (Hashbucket k) =
     (if i \<le> k \<and> k < NBUCKETS then Hashbucket k else pv s (Hashbucket k))"
proof (induction "NBUCKETS - i" arbitrary: i s)
  case 0
  then show ?case by (subst (1 2) binit_heads.simps) auto
next
  case (Suc n)
  then have lt: "i < NBUCKETS" by simp
  let ?s = "set_next (Hashbucket i) (Hashbucket i) (set_prev (Hashbucket i) (Hashbucket i) s)"
  have st: "binit_heads i s = binit_heads (Suc i) ?s"
    using lt by (subst binit_heads.simps) simp
  have ih: "nx (binit_heads (Suc i) ?s) (Hashbucket k) =
     (if Suc i \<le> k \<and> k < NBUCKETS then Hashbucket k else nx ?s (Hashbucket k)) \<and>
   pv (binit_heads (Suc i) ?s) (Hashbucket k) =
     (if Suc i \<le> k \<and> k < NBUCKETS then Hashbucket k else pv ?s (Hashbucket k))"
    using Suc.hyps(2) by (intro Suc.hyps(1)) simp
  show ?case unfolding st using ih lt
    by (cases "k = i") (auto simp: nx_set_next nx_set_prev pv_set_next pv_set_prev)
qed

lemma binit_heads_bufs: "bufs (binit_heads i s) (Buffer j) = bufs s (Buffer j)"
proof (induction "NBUCKETS - i" arbitrary: i s)
  case 0
  then show ?case by (subst binit_heads.simps) simp
next
  case (Suc n)
  then have lt: "i < NBUCKETS" by simp
  have "bufs (binit_heads (Suc i)
          (set_next (Hashbucket i) (Hashbucket i) (set_prev (Hashbucket i) (Hashbucket i) s)))
          (Buffer j) =
        bufs (set_next (Hashbucket i) (Hashbucket i) (set_prev (Hashbucket i) (Hashbucket i) s))
          (Buffer j)"
    using Suc.hyps(2) by (intro Suc.hyps(1)) simp
  then show ?case using lt
    by (subst binit_heads.simps) (simp add: set_next_def set_prev_def)
qed

lemma layout_binit_heads: "layout {} (binit_heads 0 s) (\<lambda>i. [])"
  using binit_heads_links [of 0 s]
  by (auto simp: layout_def ring_def)


lemma binit_body_links:
  "nx (binit_body j s) =
     nx (push_front (Hashbucket (unat (blockno (bufs s (Buffer j)) mod 13))) (Buffer j) s)"
  "pv (binit_body j s) =
     pv (push_front (Hashbucket (unat (blockno (bufs s (Buffer j)) mod 13))) (Buffer j) s)"
proof -
  let ?h = "Hashbucket (unat (blockno (bufs s (Buffer j)) mod 13))"
  let ?b = "Buffer j"
  have f: "nxt (bufs (initsleeplock ?b (set_prev ?b ?h (set_next ?b (nx s ?h) s))) ?h) = nx s ?h"
    by (simp add: initsleeplock_def set_prev_def set_next_def nx_def)
  show "nx (binit_body j s) = nx (push_front ?h ?b s)"
    by (simp add: binit_body_def Let_def nx_push_front nx_set_next nx_set_prev nx_initsleeplock
        flip: nx_def)
  show "pv (binit_body j s) = pv (push_front ?h ?b s)"
    using f
    by (simp add: binit_body_def Let_def pv_push_front pv_set_next pv_set_prev pv_initsleeplock
        flip: nx_def)
qed

lemma binit_body_field:
  assumes "\<And>y v. F (y\<lparr>nxt := v\<rparr>) = F y" "\<And>y v. F (y\<lparr>prev := v\<rparr>) = F y"
    "\<And>y v. F (y\<lparr>lock := v\<rparr>) = F y"
  shows "F (bufs (binit_body j s) x) = F (bufs s x)"
  by (simp add: binit_body_def Let_def set_next_def set_prev_def initsleeplock_def assms)

lemma binit_body_lock:
  "lock (bufs (binit_body j s) (Buffer k)) = (if k = j then None else lock (bufs s (Buffer k)))"
  by (simp add: binit_body_def Let_def set_next_def set_prev_def initsleeplock_def)

lemma binit_layout_Suc:
  "binit_layout s (Suc j) =
     (binit_layout s j)(unat (blockno (bufs s (Buffer j)) mod 13) :=
        j # binit_layout s j (unat (blockno (bufs s (Buffer j)) mod 13)))"
  by (rule ext) (simp add: binit_layout_def)

lemma mod13_bucket: "unat ((w :: 32 word) mod 13) < NBUCKETS"
  by (simp add: NBUCKETS_def unat_mod_distrib)

lemma binit_bufs_layout:
  assumes "layout {..<j} s (binit_layout s0 j)"
    and "\<And>x. blockno (bufs s (Buffer x)) = blockno (bufs s0 (Buffer x))"
    and "j \<le> n"
  shows "layout {..<n} (binit_bufs n j s) (binit_layout s0 n)"
  using assms
proof (induction "n - j" arbitrary: j s)
  case 0
  then show ?case by (subst binit_bufs.simps) simp
next
  case (Suc m)
  then have lt: "j < n" by simp
  let ?i = "unat (blockno (bufs s (Buffer j)) mod 13)"
  have i0: "?i = unat (blockno (bufs s0 (Buffer j)) mod 13)" by (simp add: Suc.prems(2))
  have "layout (insert j {..<j}) (push_front (Hashbucket ?i) (Buffer j) s)
          ((binit_layout s0 j)(?i := j # binit_layout s0 j ?i))"
    by (rule layout_push [OF Suc.prems(1) mod13_bucket]) simp
  then have "layout {..<Suc j} (push_front (Hashbucket ?i) (Buffer j) s) (binit_layout s0 (Suc j))"
    by (simp add: binit_layout_Suc i0 lessThan_Suc)
  then have l: "layout {..<Suc j} (binit_body j s) (binit_layout s0 (Suc j))"
    by (simp add: layout_meta [OF binit_body_links])
  have b: "blockno (bufs (binit_body j s) (Buffer x)) = blockno (bufs s0 (Buffer x))" for x
    using Suc.prems(2) by (simp add: binit_body_field)
  have "layout {..<n} (binit_bufs n (Suc j) (binit_body j s)) (binit_layout s0 n)"
    using Suc.hyps(2) lt by (intro Suc.hyps(1) l b) simp_all
  then show ?case using lt by (subst binit_bufs.simps) simp
qed

lemma binit_bufs_field:
  assumes "\<And>y v. F (y\<lparr>nxt := v\<rparr>) = F y" "\<And>y v. F (y\<lparr>prev := v\<rparr>) = F y"
    "\<And>y v. F (y\<lparr>lock := v\<rparr>) = F y"
  shows "F (bufs (binit_bufs n j s) x) = F (bufs s x)"
proof (induction "n - j" arbitrary: j s)
  case 0
  then show ?case by (subst binit_bufs.simps) simp
next
  case (Suc m)
  then have lt: "j < n" by simp
  have "F (bufs (binit_bufs n (Suc j) (binit_body j s)) x) = F (bufs (binit_body j s) x)"
    using Suc.hyps(2) by (intro Suc.hyps(1)) simp
  then show ?case using lt
    by (subst binit_bufs.simps) (simp add: binit_body_field [of F, OF assms])
qed

lemma binit_heads_field:
  assumes "\<And>y v. F (y\<lparr>nxt := v\<rparr>) = F y" "\<And>y v. F (y\<lparr>prev := v\<rparr>) = F y"
  shows "F (bufs (binit_heads i s) x) = F (bufs s x)"
proof (induction "NBUCKETS - i" arbitrary: i s)
  case 0
  then show ?case by (subst binit_heads.simps) simp
next
  case (Suc m)
  then have lt: "i < NBUCKETS" by simp
  let ?s = "set_next (Hashbucket i) (Hashbucket i) (set_prev (Hashbucket i) (Hashbucket i) s)"
  have "F (bufs (binit_heads (Suc i) ?s) x) = F (bufs ?s x)"
    using Suc.hyps(2) by (intro Suc.hyps(1)) simp
  then show ?case using lt
    by (subst binit_heads.simps) (simp add: set_next_def set_prev_def assms)
qed

lemma binit_field:
  assumes "\<And>y v. F (y\<lparr>nxt := v\<rparr>) = F y" "\<And>y v. F (y\<lparr>prev := v\<rparr>) = F y"
    "\<And>y v. F (y\<lparr>lock := v\<rparr>) = F y"
  shows "F (bufs (binit n s) x) = F (bufs s x)"
  by (simp add: binit_def binit_bufs_field [of F, OF assms] binit_heads_field [of F, OF assms(1,2)])

lemma binit_layout_ok: "layout {..<n} (binit n s) (binit_layout s n)"
proof -
  have e: "binit_layout (binit_heads 0 s) = binit_layout s"
    by (intro ext) (simp add: binit_layout_def binit_heads_bufs)
  have z: "binit_layout (binit_heads 0 s) 0 = (\<lambda>i. [])"
    by (rule ext) (simp add: binit_layout_def)
  have "layout {..<0} (binit_heads 0 s) (binit_layout (binit_heads 0 s) 0)"
    using layout_binit_heads [of s] by (simp add: z)
  then have "layout {..<n} (binit_bufs n 0 (binit_heads 0 s)) (binit_layout (binit_heads 0 s) n)"
    by (rule binit_bufs_layout) simp_all
  then show ?thesis by (simp add: binit_def e)
qed

lemma home_ok_binit: "home_ok (binit n s) (binit_layout s n)"
  by (auto simp: home_ok_def binit_layout_def binit_field)

subsection \<open>Fields that the list operations leave alone\<close>

lemma meta_eqD:
  assumes "meta t = meta s"
  shows "valid (bufs t x) = valid (bufs s x)" "dev (bufs t x) = dev (bufs s x)"
    "blockno (bufs t x) = blockno (bufs s x)" "lock (bufs t x) = lock (bufs s x)"
    "refcnt (bufs t x) = refcnt (bufs s x)" "data (bufs t x) = data (bufs s x)"
  using fun_cong [OF assms, of x] by (simp_all add: meta_def)

lemmas fields_unlink [simp] = meta_eqD [OF meta_unlink]
lemmas fields_push_front [simp] = meta_eqD [OF meta_push_front]

lemma links_retag [simp]: "nx (retag d bn b s) = nx s" "pv (retag d bn b s) = pv s"
  by (simp_all add: retag_def nx_upd_meta pv_upd_meta)

lemma bufs_retag:
  "bufs (retag d bn b s) x =
     (if x = b then (bufs s b)\<lparr>dev := d, blockno := bn, valid := 0, refcnt := 1\<rparr> else bufs s x)"
  by (simp add: retag_def upd_def)

lemma disk_retag [simp]: "disk (retag d bn b s) = disk s" "io (retag d bn b s) = io s"
  by (simp_all add: retag_def)

subsection \<open>Facts about find\<close>

lemma find_shrink:
  assumes "find P xs = Some m" "Q m" "\<And>k. k \<in> set xs \<Longrightarrow> Q k \<Longrightarrow> P k"
  shows "find Q xs = Some m"
  using assms
proof (induction xs)
  case Nil
  then show ?case by simp
next
  case (Cons a xs)
  show ?case
  proof (cases "P a")
    case True
    with Cons.prems show ?thesis by simp
  next
    case False
    then have "\<not> Q a" using Cons.prems(3) [of a] by auto
    moreover have "find P xs = Some m" using Cons.prems(1) False by simp
    then have "find Q xs = Some m" using Cons.prems(2,3) by (intro Cons.IH) auto
    ultimately show ?thesis by simp
  qed
qed

lemma find_only:
  assumes "j \<in> set xs" "P j" "\<And>k. k \<in> set xs \<Longrightarrow> P k \<Longrightarrow> k = j"
  shows "find P xs = Some j"
  using assms
proof (induction xs)
  case Nil
  then show ?case by simp
next
  case (Cons a xs)
  show ?case
  proof (cases "P a")
    case True
    then have "a = j" using Cons.prems(3) [of a] by simp
    with True show ?thesis by simp
  next
    case False
    then have "j \<in> set xs" using Cons.prems(1,2) by auto
    then have "find P xs = Some j" using Cons.prems(2,3) by (intro Cons.IH) auto
    with False show ?thesis by simp
  qed
qed

lemma find_remove1:
  "find P xs = Some m \<Longrightarrow> m \<noteq> j \<Longrightarrow> find P (remove1 j xs) = Some m"
proof (induction xs)
  case Nil
  then show ?case by simp
next
  case (Cons a xs)
  show ?case
  proof (cases "P a")
    case True
    with Cons.prems show ?thesis by simp
  next
    case False
    with Cons show ?thesis by (cases "a = j") simp_all
  qed
qed

lemma find_SomeD: "find P xs = Some x \<Longrightarrow> x \<in> set xs \<and> P x"
  by (induction xs) (auto split: if_splits)

lemma find_NoneD: "find P xs = None \<Longrightarrow> x \<in> set xs \<Longrightarrow> \<not> P x"
  by (induction xs) (auto split: if_splits)

subsection \<open>The victim of the eviction scan\<close>

lemma victim_SomeD:
  assumes "victim s L home ks = Some (k, j)"
  shows "k \<in> set ks \<and> k \<noteq> home \<and> find (unused s) (rev (L k)) = Some j"
  using assms by (induction ks) (auto split: if_splits option.splits)

lemma victim_first:
  assumes "victim s L home (as @ k # bs) = Some (k, j)" "k \<notin> set as"
  shows "\<forall>k'\<in>set as. k' \<noteq> home \<longrightarrow> (\<forall>j'\<in>set (L k'). \<not> unused s j')"
  using assms
proof (induction as)
  case Nil
  then show ?case by simp
next
  case (Cons a as)
  show ?case
  proof (cases "a \<noteq> home")
    case False
    with Cons show ?thesis by auto
  next
    case True
    with Cons.prems have n: "find (unused s) (rev (L a)) = None"
      by (auto split: option.splits)
    then have "\<forall>j'\<in>set (L a). \<not> unused s j'" using find_NoneD [OF n] by auto
    moreover have "victim s L home (as @ k # bs) = Some (k, j)"
      using Cons.prems True n by simp
    ultimately show ?thesis using Cons by auto
  qed
qed

lemma victim_None:
  "victim s L home ks = None \<longleftrightarrow>
     (\<forall>k\<in>set ks. k \<noteq> home \<longrightarrow> (\<forall>j\<in>set (L k). \<not> unused s j))"
proof (induction ks)
  case Nil
  then show ?case by simp
next
  case (Cons a ks)
  have "find (unused s) (rev (L a)) = None \<longleftrightarrow> (\<forall>j\<in>set (L a). \<not> unused s j)"
    by (auto simp: find_None_iff)
  with Cons show ?case by (auto split: option.splits)
qed


subsection \<open>Invariants under field updates\<close>

lemma layout_upd:
  "(\<And>x. nxt (f x) = nxt x) \<Longrightarrow> (\<And>x. prev (f x) = prev x) \<Longrightarrow>
   layout S (upd b f s) L = layout S s L"
  by (rule layout_meta) (simp_all add: nx_upd_meta pv_upd_meta)

lemma home_ok_cong:
  "(\<And>j. blockno (bufs t (Buffer j)) = blockno (bufs s (Buffer j))) \<Longrightarrow>
   home_ok t L = home_ok s L"
  by (simp add: home_ok_def)

lemma first_only_cong:
  "(\<And>j. tag t j = tag s j) \<Longrightarrow>
   (\<And>j. refcnt (bufs t (Buffer j)) = refcnt (bufs s (Buffer j))) \<Longrightarrow>
   first_only t L = first_only s L"
  by (simp add: first_only_def)

lemma move_layout:
  assumes lay: "layout {..<n} s L" and k: "k < NBUCKETS" and h: "h < NBUCKETS"
    and j: "j \<in> set (L k)"
  shows "layout {..<n} (push_front (Hashbucket h) (Buffer j) (unlink (Buffer j) s))
           ((L(k := remove1 j (L k)))(h := j # (L(k := remove1 j (L k))) h))"
proof -
  have jn: "j \<in> {..<n}" using layoutD(3) [OF lay k] j by auto
  have "layout ({..<n} - {j}) (unlink (Buffer j) s) (L(k := remove1 j (L k)))"
    by (rule layout_unlink [OF lay k j])
  then have "layout (insert j ({..<n} - {j}))
       (push_front (Hashbucket h) (Buffer j) (unlink (Buffer j) s))
       ((L(k := remove1 j (L k)))(h := j # (L(k := remove1 j (L k))) h))"
    by (rule layout_push [OF _ h]) simp
  moreover have "insert j ({..<n} - {j}) = {..<n}" using jn by auto
  ultimately show ?thesis by simp
qed


lemma layout_unique_bucket:
  assumes "layout S s L" "i < NBUCKETS" "k < NBUCKETS" "j \<in> set (L i)" "j \<in> set (L k)"
  shows "i = k"
  using layoutD(2) [OF assms(1,2,3)] assms(4,5) by auto

lemma find_cong_set: "(\<And>k. k \<in> set xs \<Longrightarrow> Q k = P k) \<Longrightarrow> find Q xs = find P xs"
  by (induction xs) auto

lemma first_only_move:
  assumes fo: "first_only s L" and lay: "layout S s L"
    and k: "k < NBUCKETS" and h: "h < NBUCKETS" and j: "j \<in> set (L k)"
    and same: "\<And>m. m \<noteq> j \<Longrightarrow> tag t m = tag s m \<and>
                 refcnt (bufs t (Buffer m)) = refcnt (bufs s (Buffer m))"
    and fresh: "\<And>m. m \<in> set (L h) \<Longrightarrow> m \<noteq> j \<Longrightarrow> 0 < refcnt (bufs t (Buffer m)) \<Longrightarrow>
                 tag t m \<noteq> tag t j"
  shows "first_only t ((L(k := remove1 j (L k)))(h := j # (L(k := remove1 j (L k))) h))"
  unfolding first_only_def
proof (intro allI impI ballI)
  let ?L1 = "L(k := remove1 j (L k))"
  let ?L = "?L1(h := j # ?L1 h)"
  fix i m
  assume i: "i < NBUCKETS" and m: "m \<in> set (?L i)" and r: "0 < refcnt (bufs t (Buffer m))"
  let ?Q = "\<lambda>x. tag t x = tag t m"
  let ?P = "\<lambda>x. tag s x = tag s m"
  have dk: "distinct (L k)" by (rule layoutD(5) [OF lay k])
  have jrem: "j \<notin> set (remove1 j (L k))" using dk by simp
  have jL1: "j \<notin> set (?L1 i')" if "i' < NBUCKETS" for i'
    using jrem layout_unique_bucket [OF lay that k _ j] by (cases "i' = k") auto
  have sub: "set (?L1 i') \<subseteq> set (L i')" for i'
    using set_remove1_subset [of j "L k"] by auto
  have old: "find ?Q (?L1 i') = Some m"
    if i': "i' < NBUCKETS" and m': "m \<in> set (?L1 i')" for i'
  proof -
    have mj: "m \<noteq> j" using jL1 [OF i'] m' by auto
    have ms: "m \<in> set (L i')" using sub m' by auto
    have rs: "0 < refcnt (bufs s (Buffer m))" using r same [OF mj] by simp
    have p: "find ?P (L i') = Some m"
      using fo i' ms rs by (simp add: first_only_def)
    have p1: "find ?P (?L1 i') = Some m"
      using p mj by (cases "i' = k") (simp_all add: find_remove1)
    have "find ?Q (?L1 i') = find ?P (?L1 i')"
    proof (rule find_cong_set)
      fix x assume "x \<in> set (?L1 i')"
      then have "x \<noteq> j" using jL1 [OF i'] by auto
      then show "?Q x = ?P x" using same [of x] same [OF mj] by simp
    qed
    with p1 show ?thesis by simp
  qed
  show "find ?Q (?L i) = Some m"
  proof (cases "i = h")
    case False
    then show ?thesis using old [OF i] m by simp
  next
    case True
    show ?thesis
    proof (cases "m = j")
      case True
      then show ?thesis using \<open>i = h\<close> by simp
    next
      case False
      then have m1: "m \<in> set (?L1 h)" using m \<open>i = h\<close> by simp
      then have "m \<in> set (L h)" using sub by auto
      then have "tag t m \<noteq> tag t j" using fresh False r by simp
      then have "\<not> ?Q j" by simp
      then show ?thesis using old [OF h m1] \<open>i = h\<close> by simp
    qed
  qed
qed

lemma home_ok_move:
  assumes ho: "home_ok s L" and lay: "layout S s L"
    and k: "k < NBUCKETS" and h: "h < NBUCKETS" and j: "j \<in> set (L k)"
    and same: "\<And>m. m \<noteq> j \<Longrightarrow> blockno (bufs t (Buffer m)) = blockno (bufs s (Buffer m))"
    and new: "unat (blockno (bufs t (Buffer j)) mod 13) = h"
  shows "home_ok t ((L(k := remove1 j (L k)))(h := j # (L(k := remove1 j (L k))) h))"
  unfolding home_ok_def
proof (intro allI impI ballI)
  let ?L1 = "L(k := remove1 j (L k))"
  let ?L = "?L1(h := j # ?L1 h)"
  fix i m
  assume i: "i < NBUCKETS" and m: "m \<in> set (?L i)"
  have sub: "set (?L1 i') \<subseteq> set (L i')" for i'
    using set_remove1_subset [of j "L k"] by auto
  show "unat (blockno (bufs t (Buffer m)) mod 13) = i"
  proof (cases "m = j")
    case True
    have dk: "distinct (L k)" by (rule layoutD(5) [OF lay k])
    have "j \<notin> set (?L1 i)"
      using dk layout_unique_bucket [OF lay i k _ j] by (cases "i = k") auto
    then have "i = h" using m True by (auto split: if_splits)
    then show ?thesis using new True by simp
  next
    case False
    then have "m \<in> set (?L1 i)" using m by (auto split: if_splits)
    then have "m \<in> set (L i)" using sub by auto
    then show ?thesis using ho i same [OF False] by (simp add: home_ok_def)
  qed
qed

subsection \<open>The three successful paths of bget keep the invariants\<close>

lemma layout_retag [simp]: "layout S (retag d bn b s) L = layout S s L"
  by (rule layout_meta) simp_all

lemma tag_cached: "tag s j = (d, bn) \<longleftrightarrow> cached s d bn j"
  by (auto simp: tag_def cached_def)

lemma hit_inv:
  assumes lay: "lists_ok n s L" and h: "h < NBUCKETS"
    and f: "find (cached s d bn) (L h) = Some j"
  shows "lists_ok n (upd (Buffer j) (\<lambda>x. x\<lparr>refcnt := refcnt x + 1\<rparr>) s) L"
    and "home_ok s L \<Longrightarrow> home_ok (upd (Buffer j) (\<lambda>x. x\<lparr>refcnt := refcnt x + 1\<rparr>) s) L"
    and "first_only s L \<Longrightarrow> first_only (upd (Buffer j) (\<lambda>x. x\<lparr>refcnt := refcnt x + 1\<rparr>) s) L"
proof -
  let ?t = "upd (Buffer j) (\<lambda>x. x\<lparr>refcnt := refcnt x + 1\<rparr>) s"
  show "lists_ok n ?t L" using lay by (simp add: lists_ok_def layout_upd)
  show "home_ok ?t L" if "home_ok s L" using that by (simp add: home_ok_def)
  have l: "layout {..<n} s L" using lay by (simp add: lists_ok_def)
  have jh: "j \<in> set (L h)" and cj: "cached s d bn j" using find_SomeD [OF f] by auto
  have tg: "tag ?t m = tag s m" for m by (simp add: tag_def)
  show "first_only ?t L" if fo: "first_only s L"
    unfolding first_only_def
  proof (intro allI impI ballI)
    fix i m
    assume i: "i < NBUCKETS" and m: "m \<in> set (L i)" and r: "0 < refcnt (bufs ?t (Buffer m))"
    show "find (\<lambda>k. tag ?t k = tag ?t m) (L i) = Some m"
    proof (cases "m = j")
      case True
      then have "i = h" using layout_unique_bucket [OF l i h m] jh by simp
      moreover have "(\<lambda>k. tag s k = tag s j) = cached s d bn"
        using cj by (auto simp: tag_def cached_def)
      ultimately show ?thesis using f True by (simp add: tg)
    next
      case False
      then have "0 < refcnt (bufs s (Buffer m))" using r by simp
      then show ?thesis using fo i m by (simp add: first_only_def tg)
    qed
  qed
qed

lemma recycle_inv:
  assumes lay: "lists_ok n s L" and h: "h = unat (bn mod 13)"
    and c: "find (cached s d bn) (L h) = None"
    and f: "find (unused s) (L h) = Some j"
  shows "lists_ok n (retag d bn (Buffer j) s) L"
    and "home_ok s L \<Longrightarrow> home_ok (retag d bn (Buffer j) s) L"
    and "first_only s L \<Longrightarrow> first_only (retag d bn (Buffer j) s) L"
proof -
  let ?t = "retag d bn (Buffer j) s"
  have hb: "h < NBUCKETS" unfolding h by (rule mod13_bucket)
  have l: "layout {..<n} s L" using lay by (simp add: lists_ok_def)
  have jh: "j \<in> set (L h)" using find_SomeD [OF f] by auto
  show "lists_ok n ?t L" using lay by (simp add: lists_ok_def)
  have tj: "tag ?t j = (d, bn)" by (simp add: tag_def bufs_retag)
  have to: "tag ?t m = tag s m" if "m \<noteq> j" for m using that by (simp add: tag_def bufs_retag)
  have nc: "tag s m \<noteq> (d, bn)" if "m \<in> set (L h)" for m
    using find_NoneD [OF c that] by (simp add: tag_cached)
  show "home_ok ?t L" if ho: "home_ok s L"
    unfolding home_ok_def
  proof (intro allI impI ballI)
    fix i m assume i: "i < NBUCKETS" and m: "m \<in> set (L i)"
    show "unat (blockno (bufs ?t (Buffer m)) mod 13) = i"
    proof (cases "m = j")
      case True
      then have "i = h" using layout_unique_bucket [OF l i hb m] jh by simp
      then show ?thesis using True h by (simp add: bufs_retag)
    next
      case False
      then show ?thesis using ho i m by (simp add: home_ok_def bufs_retag)
    qed
  qed
  show "first_only ?t L" if fo: "first_only s L"
    unfolding first_only_def
  proof (intro allI impI ballI)
    fix i m
    assume i: "i < NBUCKETS" and m: "m \<in> set (L i)" and r: "0 < refcnt (bufs ?t (Buffer m))"
    show "find (\<lambda>k. tag ?t k = tag ?t m) (L i) = Some m"
    proof (cases "m = j")
      case True
      then have ih: "i = h" using layout_unique_bucket [OF l i hb m] jh by simp
      have "find (\<lambda>k. tag ?t k = (d, bn)) (L h) = Some j"
      proof (rule find_only)
        show "j \<in> set (L h)" by (rule jh)
        show "tag ?t j = (d, bn)" by (rule tj)
        fix x assume "x \<in> set (L h)" "tag ?t x = (d, bn)"
        then show "x = j" using nc [of x] to [of x] by auto
      qed
      then show ?thesis using True ih tj by simp
    next
      case False
      then have "0 < refcnt (bufs s (Buffer m))" using r by (simp add: bufs_retag)
      then have p: "find (\<lambda>k. tag s k = tag s m) (L i) = Some m"
        using fo i m by (simp add: first_only_def)
      show ?thesis
      proof (rule find_shrink [OF p])
        show "tag ?t m = tag ?t m" by simp
      next
        fix x assume x: "x \<in> set (L i)" and q: "tag ?t x = tag ?t m"
        show "tag s x = tag s m"
        proof (cases "x = j")
          case True
          then have "i = h" using layout_unique_bucket [OF l i hb x] jh by simp
          then have "tag s m \<noteq> (d, bn)" using nc [of m] m by simp
          then show ?thesis using q True tj to [OF False] by simp
        next
          case xj: False
          then show ?thesis using q to [OF xj] to [OF False] by simp
        qed
      qed
    qed
  qed
qed

lemma steal_inv:
  assumes lay: "lists_ok n s L" and h: "h = unat (bn mod 13)"
    and c: "find (cached s d bn) (L h) = None"
    and v: "victim s L h [0..<NBUCKETS] = Some (k, j)"
  shows "lists_ok n (push_front (Hashbucket h) (Buffer j) (unlink (Buffer j) (retag d bn (Buffer j) s)))
           ((L(k := remove1 j (L k)))(h := j # L h))"
    and "home_ok s L \<Longrightarrow>
         home_ok (push_front (Hashbucket h) (Buffer j) (unlink (Buffer j) (retag d bn (Buffer j) s)))
           ((L(k := remove1 j (L k)))(h := j # L h))"
    and "first_only s L \<Longrightarrow>
         first_only (push_front (Hashbucket h) (Buffer j) (unlink (Buffer j) (retag d bn (Buffer j) s)))
           ((L(k := remove1 j (L k)))(h := j # L h))"
proof -
  let ?r = "retag d bn (Buffer j) s"
  let ?t = "push_front (Hashbucket h) (Buffer j) (unlink (Buffer j) ?r)"
  have hb: "h < NBUCKETS" unfolding h by (rule mod13_bucket)
  have vk: "k \<in> set [0..<NBUCKETS]" "k \<noteq> h" "find (unused s) (rev (L k)) = Some j"
    using victim_SomeD [OF v] by auto
  then have kb: "k < NBUCKETS" by simp
  have jk: "j \<in> set (L k)" using find_SomeD [OF vk(3)] by simp
  have l: "layout {..<n} s L" using lay by (simp add: lists_ok_def)
  have lr: "layout {..<n} ?r L" using l by simp
  have e: "(L(k := remove1 j (L k)))(h := j # (L(k := remove1 j (L k))) h) =
           (L(k := remove1 j (L k)))(h := j # L h)"
    using vk(2) by simp
  show "lists_ok n ?t ((L(k := remove1 j (L k)))(h := j # L h))"
    using move_layout [OF lr kb hb jk] unfolding e lists_ok_def .
  have nc: "tag s m \<noteq> (d, bn)" if "m \<in> set (L h)" for m
    using find_NoneD [OF c that] by (simp add: tag_cached)
  have jh: "j \<notin> set (L h)" using layout_unique_bucket [OF l kb hb jk] vk(2) by auto
  show "home_ok ?t ((L(k := remove1 j (L k)))(h := j # L h))" if ho: "home_ok s L"
    unfolding e [symmetric]
    by (rule home_ok_move [OF ho l kb hb jk]) (simp_all add: bufs_retag h)
  show "first_only ?t ((L(k := remove1 j (L k)))(h := j # L h))" if fo: "first_only s L"
  proof -
    have "first_only ?t ((L(k := remove1 j (L k)))(h := j # (L(k := remove1 j (L k))) h))"
    proof (rule first_only_move [OF fo l kb hb jk])
      fix m assume "m \<noteq> j"
      then show "tag ?t m = tag s m \<and>
          refcnt (bufs ?t (Buffer m)) = refcnt (bufs s (Buffer m))"
        by (simp add: tag_def bufs_retag)
    next
      fix m assume m: "m \<in> set (L h)" and mj: "m \<noteq> j"
      have "tag ?t j = (d, bn)" by (simp add: tag_def bufs_retag)
      moreover have "tag ?t m = tag s m" using mj by (simp add: tag_def bufs_retag)
      ultimately show "tag ?t m \<noteq> tag ?t j" using nc [OF m] by simp
    qed
    then show ?thesis by (simp only: e)
  qed
qed



subsection \<open>Updates that do not touch the links\<close>

lemma first_only_mono:
  assumes "first_only s L"
    and "\<And>m. tag t m = tag s m"
    and "\<And>m. 0 < refcnt (bufs t (Buffer m)) \<Longrightarrow> 0 < refcnt (bufs s (Buffer m))"
  shows "first_only t L"
  using assms by (simp add: first_only_def)

lemma quiet_inv:
  assumes "nx t = nx s" "pv t = pv s"
    and "\<And>m. tag t m = tag s m"
    and "\<And>m. 0 < refcnt (bufs t (Buffer m)) \<Longrightarrow> 0 < refcnt (bufs s (Buffer m))"
  shows "lists_ok n s L \<Longrightarrow> lists_ok n t L"
    and "home_ok s L \<Longrightarrow> home_ok t L"
    and "first_only s L \<Longrightarrow> first_only t L"
proof -
  show "lists_ok n t L" if "lists_ok n s L"
    using that layout_meta [OF assms(1,2)] by (simp add: lists_ok_def)
  have "blockno (bufs t (Buffer m)) = blockno (bufs s (Buffer m))" for m
    using assms(3) [of m] by (simp add: tag_def)
  then show "home_ok t L" if "home_ok s L" using that by (simp add: home_ok_def)
  show "first_only t L" if "first_only s L"
    using that assms(3,4) by (rule first_only_mono)
qed

lemma links_upd_lock [simp]:
  "nx (upd b (\<lambda>x. x\<lparr>lock := v\<rparr>) s) = nx s" "pv (upd b (\<lambda>x. x\<lparr>lock := v\<rparr>) s) = pv s"
  by (simp_all add: nx_upd_meta pv_upd_meta)

lemma links_upd_refcnt [simp]:
  "nx (upd b (\<lambda>x. x\<lparr>refcnt := g x\<rparr>) s) = nx s" "pv (upd b (\<lambda>x. x\<lparr>refcnt := g x\<rparr>) s) = pv s"
  by (simp_all add: nx_upd_meta pv_upd_meta)

lemma links_upd_valid [simp]:
  "nx (upd b (\<lambda>x. x\<lparr>valid := v\<rparr>) s) = nx s" "pv (upd b (\<lambda>x. x\<lparr>valid := v\<rparr>) s) = pv s"
  by (simp_all add: nx_upd_meta pv_upd_meta)

lemma links_releasesleep [simp]: "nx (releasesleep b s) = nx s" "pv (releasesleep b s) = pv s"
  by (simp_all add: releasesleep_def)

lemma links_virtio [simp]:
  "nx (virtio_disk_rw b w s) = nx s" "pv (virtio_disk_rw b w s) = pv s"
  by (auto simp: virtio_disk_rw_def Let_def nx_def pv_def intro!: ext)

lemma bufs_virtio_write [simp]: "bufs (virtio_disk_rw b True s) = bufs s"
  by (simp add: virtio_disk_rw_def Let_def)

lemma bufs_virtio_read:
  "bufs (virtio_disk_rw b False s) x =
     (if x = b then (bufs s b)\<lparr>data := disk s (dev (bufs s b), blockno (bufs s b))\<rparr> else bufs s x)"
  by (simp add: virtio_disk_rw_def Let_def)

lemma bufs_releasesleep:
  "bufs (releasesleep b s) x = (if x = b then (bufs s b)\<lparr>lock := None\<rparr> else bufs s x)"
  by (simp add: releasesleep_def)

lemma acquiresleep_cases:
  obtains (free) "lock (bufs s b) = None"
      "acquiresleep p b s = Returns b (upd b (\<lambda>x. x\<lparr>lock := Some p\<rparr>) s)"
  | (held) "lock (bufs s b) \<noteq> None" "acquiresleep p b s = Sleeps b s"
  by (cases "lock (bufs s b) = None") (simp_all add: acquiresleep_def)

lemma acquiresleep_inv:
  assumes "state_of (acquiresleep p b s) = Some t"
  shows "lists_ok n s L \<Longrightarrow> lists_ok n t L"
    and "home_ok s L \<Longrightarrow> home_ok t L"
    and "first_only s L \<Longrightarrow> first_only t L"
proof -
  have q: "nx t = nx s \<and> pv t = pv s \<and> (\<forall>m. tag t m = tag s m) \<and>
      (\<forall>m. refcnt (bufs t (Buffer m)) = refcnt (bufs s (Buffer m)))"
    using assms by (cases rule: acquiresleep_cases [of s b p]) (auto simp: tag_def)
  show "lists_ok n t L" if "lists_ok n s L" using that q by (intro quiet_inv(1) [of t s]) auto
  show "home_ok t L" if "home_ok s L" using that q by (intro quiet_inv(2) [of t s]) auto
  show "first_only t L" if "first_only s L" using that q by (intro quiet_inv(3) [of t s]) auto
qed

lemma acquiresleep_fields:
  assumes "state_of (acquiresleep p b s) = Some t"
  shows "refcnt (bufs t x) = refcnt (bufs s x)" "dev (bufs t x) = dev (bufs s x)"
    "blockno (bufs t x) = blockno (bufs s x)" "valid (bufs t x) = valid (bufs s x)"
    "nxt (bufs t x) = nxt (bufs s x)" "prev (bufs t x) = prev (bufs s x)"
    "data (bufs t x) = data (bufs s x)" "disk t = disk s" "io t = io s"
proof -
  have "t = upd b (\<lambda>x. x\<lparr>lock := Some p\<rparr>) s \<or> t = s"
    using assms by (cases rule: acquiresleep_cases [of s b p]) auto
  then show "refcnt (bufs t x) = refcnt (bufs s x)" "dev (bufs t x) = dev (bufs s x)"
    "blockno (bufs t x) = blockno (bufs s x)" "valid (bufs t x) = valid (bufs s x)"
    "nxt (bufs t x) = nxt (bufs s x)" "prev (bufs t x) = prev (bufs s x)"
    "data (bufs t x) = data (bufs s x)" "disk t = disk s" "io t = io s"
    by auto
qed

lemma acquiresleep_yield [simp]: "yield (acquiresleep p b s) = Some b"
  by (simp add: acquiresleep_def)

lemma acquiresleep_state: "\<exists>t. state_of (acquiresleep p b s) = Some t"
  by (simp add: acquiresleep_def)


subsection \<open>The abstract algorithm, case by case\<close>

lemma acquire_spec_cases:
  obtains
    (hit) j where "find (cached s d bn) (L (unat (bn mod 13))) = Some j"
      "acquire_spec L p d bn s =
         acquiresleep p (Buffer j) (upd (Buffer j) (\<lambda>x. x\<lparr>refcnt := refcnt x + 1\<rparr>) s)"
      "acquire_layout L d bn s = L"
  | (recycle) j where "find (cached s d bn) (L (unat (bn mod 13))) = None"
      "find (unused s) (L (unat (bn mod 13))) = Some j"
      "acquire_spec L p d bn s = acquiresleep p (Buffer j) (retag d bn (Buffer j) s)"
      "acquire_layout L d bn s = L"
  | (steal) k j where "find (cached s d bn) (L (unat (bn mod 13))) = None"
      "find (unused s) (L (unat (bn mod 13))) = None"
      "victim s L (unat (bn mod 13)) [0..<NBUCKETS] = Some (k, j)"
      "acquire_spec L p d bn s =
         acquiresleep p (Buffer j)
           (push_front (Hashbucket (unat (bn mod 13))) (Buffer j)
              (unlink (Buffer j) (retag d bn (Buffer j) s)))"
      "acquire_layout L d bn s =
         (L(k := remove1 j (L k)))(unat (bn mod 13) := j # L (unat (bn mod 13)))"
  | (exhausted) "find (cached s d bn) (L (unat (bn mod 13))) = None"
      "find (unused s) (L (unat (bn mod 13))) = None"
      "victim s L (unat (bn mod 13)) [0..<NBUCKETS] = None"
      "acquire_spec L p d bn s = Panic ''bget: no buffers''"
proof (cases "find (cached s d bn) (L (unat (bn mod 13)))")
  case (Some j)
  then show ?thesis by (intro hit [of j]) (simp_all add: acquire_spec_def acquire_layout_def)
next
  case c: None
  show ?thesis
  proof (cases "find (unused s) (L (unat (bn mod 13)))")
    case (Some j)
    then show ?thesis using c
      by (intro recycle [of j]) (simp_all add: acquire_spec_def acquire_layout_def)
  next
    case u: None
    show ?thesis
    proof (cases "victim s L (unat (bn mod 13)) [0..<NBUCKETS]")
      case None
      then show ?thesis using c u
        by (intro exhausted) (simp_all add: acquire_spec_def)
    next
      case (Some kj)
      obtain k j where kj: "kj = (k, j)" by (cases kj)
      show ?thesis using c u Some kj
        by (intro steal [of k j]) (simp_all add: acquire_spec_def acquire_layout_def Let_def)
    qed
  qed
qed

lemma acquire_spec_inv:
  assumes lay: "lists_ok n s L" and st: "state_of (acquire_spec L p d bn s) = Some t"
  shows "lists_ok n t (acquire_layout L d bn s)"
    and "home_ok s L \<Longrightarrow> home_ok t (acquire_layout L d bn s)"
    and "first_only s L \<Longrightarrow> first_only t (acquire_layout L d bn s)"
proof -
  have "lists_ok n t (acquire_layout L d bn s) \<and>
      (home_ok s L \<longrightarrow> home_ok t (acquire_layout L d bn s)) \<and>
      (first_only s L \<longrightarrow> first_only t (acquire_layout L d bn s))"
  proof (cases rule: acquire_spec_cases [of s d bn L p])
    case (hit j)
    note a = acquiresleep_inv [OF st [unfolded hit(2)]]
    note h = hit_inv [OF lay mod13_bucket hit(1)]
    show ?thesis unfolding hit(3) using a h by blast
  next
    case (recycle j)
    note a = acquiresleep_inv [OF st [unfolded recycle(3)]]
    note h = recycle_inv [OF lay refl recycle(1,2)]
    show ?thesis unfolding recycle(4) using a h by blast
  next
    case (steal k j)
    note a = acquiresleep_inv [OF st [unfolded steal(4)]]
    note h = steal_inv [OF lay refl steal(1,3)]
    show ?thesis unfolding steal(5) using a h by blast
  next
    case exhausted
    then show ?thesis using st by simp
  qed
  then show "lists_ok n t (acquire_layout L d bn s)"
    and "home_ok s L \<Longrightarrow> home_ok t (acquire_layout L d bn s)"
    and "first_only s L \<Longrightarrow> first_only t (acquire_layout L d bn s)"
    by blast+
qed

lemma acquire_spec_refcnt:
  assumes st: "state_of (acquire_spec L p d bn s) = Some t"
    and y: "yield (acquire_spec L p d bn s) = Some b"
  shows "refcnt (bufs t b) = refcnt (bufs s b) + 1"
    and "x \<noteq> b \<Longrightarrow> refcnt (bufs t x) = refcnt (bufs s x)"
proof -
  have "refcnt (bufs t b) = refcnt (bufs s b) + 1 \<and>
        (x \<noteq> b \<longrightarrow> refcnt (bufs t x) = refcnt (bufs s x))"
  proof (cases rule: acquire_spec_cases [of s d bn L p])
    case (hit j)
    have b: "b = Buffer j" using y unfolding hit(2) by simp
    note f = acquiresleep_fields(1) [OF st [unfolded hit(2)]]
    show ?thesis unfolding f b by simp
  next
    case (recycle j)
    have b: "b = Buffer j" using y unfolding recycle(3) by simp
    have u: "refcnt (bufs s (Buffer j)) = 0"
      using find_SomeD [OF recycle(2)] by (simp add: unused_def)
    note f = acquiresleep_fields(1) [OF st [unfolded recycle(3)]]
    show ?thesis unfolding f b using u by (simp add: bufs_retag)
  next
    case (steal k j)
    have b: "b = Buffer j" using y unfolding steal(4) by simp
    have u: "refcnt (bufs s (Buffer j)) = 0"
      using find_SomeD [OF victim_SomeD [OF steal(3), THEN conjunct2, THEN conjunct2]]
      by (simp add: unused_def)
    note f = acquiresleep_fields(1) [OF st [unfolded steal(4)]]
    show ?thesis unfolding f b using u by (simp add: bufs_retag)
  next
    case exhausted
    then show ?thesis using st by simp
  qed
  then show "refcnt (bufs t b) = refcnt (bufs s b) + 1"
    and "x \<noteq> b \<Longrightarrow> refcnt (bufs t x) = refcnt (bufs s x)"
    by blast+
qed


subsection \<open>brelse\<close>

lemma brelse_holding:
  assumes "holdingsleep p b s"
  shows "brelse p b s =
     Inr (if refcnt (bufs s b) = 1
          then push_front (Hashbucket (unat (blockno (bufs s b) mod 13))) b
                 (unlink b (upd b (\<lambda>x. x\<lparr>refcnt := refcnt x - 1\<rparr>) (releasesleep b s)))
          else upd b (\<lambda>x. x\<lparr>refcnt := refcnt x - 1\<rparr>) (releasesleep b s))"
  using assms by (simp add: brelse_def Let_def bufs_releasesleep)

lemma brelse_panics: "\<not> holdingsleep p b s \<Longrightarrow> brelse p b s = Inl ''brelse''"
  by (simp add: brelse_def)

lemma brelse_InrD: "brelse p b s = Inr t \<Longrightarrow> holdingsleep p b s"
  by (auto simp: brelse_def split: if_splits)

lemma brelse_fields:
  assumes "brelse p b s = Inr t"
  shows "refcnt (bufs t x) = (if x = b then refcnt (bufs s b) - 1 else refcnt (bufs s x))"
    and "lock (bufs t x) = (if x = b then None else lock (bufs s x))"
    and "dev (bufs t x) = dev (bufs s x)" "blockno (bufs t x) = blockno (bufs s x)"
    and "valid (bufs t x) = valid (bufs s x)" "data (bufs t x) = data (bufs s x)"
    and "disk t = disk s" "io t = io s"
proof -
  have h: "holdingsleep p b s" using assms by (rule brelse_InrD)
  have t: "t = (if refcnt (bufs s b) = 1
          then push_front (Hashbucket (unat (blockno (bufs s b) mod 13))) b
                 (unlink b (upd b (\<lambda>x. x\<lparr>refcnt := refcnt x - 1\<rparr>) (releasesleep b s)))
          else upd b (\<lambda>x. x\<lparr>refcnt := refcnt x - 1\<rparr>) (releasesleep b s))"
    using assms brelse_holding [OF h] by simp
  show "refcnt (bufs t x) = (if x = b then refcnt (bufs s b) - 1 else refcnt (bufs s x))"
    unfolding t by (simp add: bufs_releasesleep)
  show "lock (bufs t x) = (if x = b then None else lock (bufs s x))"
    unfolding t by (simp add: bufs_releasesleep)
  show "dev (bufs t x) = dev (bufs s x)" unfolding t by (simp add: bufs_releasesleep)
  show "blockno (bufs t x) = blockno (bufs s x)" unfolding t by (simp add: bufs_releasesleep)
  show "valid (bufs t x) = valid (bufs s x)" unfolding t by (simp add: bufs_releasesleep)
  show "data (bufs t x) = data (bufs s x)" unfolding t by (simp add: bufs_releasesleep)
  show "disk t = disk s" unfolding t by (simp add: releasesleep_def)
  show "io t = io s" unfolding t by (simp add: releasesleep_def)
qed

lemma brelse_links_kept:
  assumes "brelse p b s = Inr t" "refcnt (bufs s b) \<noteq> 1"
  shows "nx t = nx s" "pv t = pv s"
proof -
  have h: "holdingsleep p b s" using assms(1) by (rule brelse_InrD)
  have t: "t = upd b (\<lambda>x. x\<lparr>refcnt := refcnt x - 1\<rparr>) (releasesleep b s)"
    using assms brelse_holding [OF h] by simp
  show "nx t = nx s" "pv t = pv s" unfolding t by simp_all
qed

lemma brelse_inv:
  assumes lay: "lists_ok n s L" and j: "j \<in> set (L (unat (blockno (bufs s (Buffer j)) mod 13)))"
    and r: "brelse p (Buffer j) s = Inr t"
  shows "lists_ok n t (release_layout L s j)"
    and "home_ok s L \<Longrightarrow> home_ok t (release_layout L s j)"
    and "first_only s L \<Longrightarrow> first_only t (release_layout L s j)"
proof -
  let ?i = "unat (blockno (bufs s (Buffer j)) mod 13)"
  let ?b = "Buffer j"
  let ?s2 = "upd ?b (\<lambda>x. x\<lparr>refcnt := refcnt x - 1\<rparr>) (releasesleep ?b s)"
  have ib: "?i < NBUCKETS" by (rule mod13_bucket)
  have l: "layout {..<n} s L" using lay by (simp add: lists_ok_def)
  have tg: "tag t m = tag s m" for m by (simp add: tag_def brelse_fields [OF r])
  have rc: "0 < refcnt (bufs t (Buffer m)) \<Longrightarrow> 0 < refcnt (bufs s (Buffer m))" for m
    by (simp add: brelse_fields [OF r] split: if_splits)
  have "lists_ok n t (release_layout L s j) \<and>
      (home_ok s L \<longrightarrow> home_ok t (release_layout L s j)) \<and>
      (first_only s L \<longrightarrow> first_only t (release_layout L s j))"
  proof (cases "refcnt (bufs s ?b) = 1")
    case False
    then have e: "release_layout L s j = L" by (simp add: release_layout_def Let_def)
    note k = brelse_links_kept [OF r False]
    show ?thesis unfolding e
      using quiet_inv [of t s, OF k tg rc] lay by blast
  next
    case True
    then have e: "release_layout L s j = (L(?i := remove1 j (L ?i)))(?i := j # (L(?i := remove1 j (L ?i))) ?i)"
      by (simp add: release_layout_def Let_def)
    have t: "t = push_front (Hashbucket ?i) ?b (unlink ?b ?s2)"
      using r brelse_holding [OF brelse_InrD [OF r]] True by simp
    have l2: "layout {..<n} ?s2 L"
      using l by (simp add: layout_meta [of ?s2 s])
    have 1: "lists_ok n t (release_layout L s j)"
      unfolding e t lists_ok_def by (rule move_layout [OF l2 ib ib j])
    have 2: "home_ok t (release_layout L s j)" if ho: "home_ok s L"
      unfolding e
      by (rule home_ok_move [OF ho l ib ib j]) (simp_all add: brelse_fields [OF r])
    have 3: "first_only t (release_layout L s j)" if fo: "first_only s L"
      unfolding e
    proof (rule first_only_move [OF fo l ib ib j])
      fix m assume "m \<noteq> j"
      then show "tag t m = tag s m \<and> refcnt (bufs t (Buffer m)) = refcnt (bufs s (Buffer m))"
        by (simp add: tg brelse_fields [OF r])
    next
      fix m assume m: "m \<in> set (L ?i)" and mj: "m \<noteq> j" and p: "0 < refcnt (bufs t (Buffer m))"
      have pm: "0 < refcnt (bufs s (Buffer m))" using rc [OF p] .
      have fm: "find (\<lambda>k. tag s k = tag s m) (L ?i) = Some m"
        using fo ib m pm by (simp add: first_only_def)
      have fj: "find (\<lambda>k. tag s k = tag s j) (L ?i) = Some j"
        using fo ib j True by (simp add: first_only_def)
      show "tag t m \<noteq> tag t j"
      proof
        assume "tag t m = tag t j"
        then have "tag s m = tag s j" by (simp add: tg)
        with fm fj show False using mj by simp
      qed
    qed
    show ?thesis using 1 2 3 by blast
  qed
  then show "lists_ok n t (release_layout L s j)"
    and "home_ok s L \<Longrightarrow> home_ok t (release_layout L s j)"
    and "first_only s L \<Longrightarrow> first_only t (release_layout L s j)"
    by blast+
qed


subsection \<open>What binit leaves alone\<close>

lemma fields_binit [simp]:
  "dev (bufs (binit n s) x) = dev (bufs s x)"
  "blockno (bufs (binit n s) x) = blockno (bufs s x)"
  "refcnt (bufs (binit n s) x) = refcnt (bufs s x)"
  "valid (bufs (binit n s) x) = valid (bufs s x)"
  "data (bufs (binit n s) x) = data (bufs s x)"
  by (rule binit_field; simp)+

lemma disk_binit_body [simp]: "disk (binit_body j s) = disk s" "io (binit_body j s) = io s"
  by (simp_all add: binit_body_def Let_def initsleeplock_def)

lemma disk_binit_bufs: "disk (binit_bufs n j s) = disk s \<and> io (binit_bufs n j s) = io s"
proof (induction "n - j" arbitrary: j s)
  case 0
  then show ?case by (subst (1 2) binit_bufs.simps) simp
next
  case (Suc m)
  then have lt: "j < n" by simp
  have "disk (binit_bufs n (Suc j) (binit_body j s)) = disk (binit_body j s) \<and>
        io (binit_bufs n (Suc j) (binit_body j s)) = io (binit_body j s)"
    using Suc.hyps(2) by (intro Suc.hyps(1)) simp
  then show ?case using lt by (subst (1 2) binit_bufs.simps) simp
qed

lemma disk_binit_heads: "disk (binit_heads i s) = disk s \<and> io (binit_heads i s) = io s"
proof (induction "NBUCKETS - i" arbitrary: i s)
  case 0
  then show ?case by (subst (1 2) binit_heads.simps) simp
next
  case (Suc m)
  then have lt: "i < NBUCKETS" by simp
  let ?s = "set_next (Hashbucket i) (Hashbucket i) (set_prev (Hashbucket i) (Hashbucket i) s)"
  have "disk (binit_heads (Suc i) ?s) = disk ?s \<and> io (binit_heads (Suc i) ?s) = io ?s"
    using Suc.hyps(2) by (intro Suc.hyps(1)) simp
  then show ?case using lt by (subst (1 2) binit_heads.simps) simp
qed

lemma disk_binit [simp]: "disk (binit n s) = disk s" "io (binit n s) = io s"
  by (simp_all add: binit_def disk_binit_bufs disk_binit_heads)

lemma lock_binit_bufs:
  "lock (bufs (binit_bufs n j s) (Buffer k)) =
     (if j \<le> k \<and> k < n then None else lock (bufs s (Buffer k)))"
proof (induction "n - j" arbitrary: j s)
  case 0
  then show ?case by (subst binit_bufs.simps) auto
next
  case (Suc m)
  then have lt: "j < n" by simp
  have "lock (bufs (binit_bufs n (Suc j) (binit_body j s)) (Buffer k)) =
     (if Suc j \<le> k \<and> k < n then None else lock (bufs (binit_body j s) (Buffer k)))"
    using Suc.hyps(2) by (intro Suc.hyps(1)) simp
  then show ?case using lt
    by (subst binit_bufs.simps) (auto simp: binit_body_lock)
qed

lemma lock_binit: "k < n \<Longrightarrow> lock (bufs (binit n s) (Buffer k)) = None"
  by (simp add: binit_def lock_binit_bufs)

lemma zeroed_bio0: "zeroed bio0"
  by (simp add: zeroed_def bio0_def zero_buf_def)

lemma binit_layout_zeroed:
  "zeroed s \<Longrightarrow> binit_layout s n = (\<lambda>i. if i = 0 then rev [0..<n] else [])"
  by (rule ext) (simp add: binit_layout_def zeroed_def)

subsection \<open>Lock checks of bwrite and brelse\<close>

text \<open>
  Claim C9. \<^verbatim>\<open>bwrite\<close> and \<^verbatim>\<open>brelse\<close> panic when the calling process does not hold
  the sleep-lock of the buffer. When it does, \<^verbatim>\<open>bwrite\<close> performs exactly one device
  operation, a write of the buffer's payload to the location \<open>(dev, blockno)\<close> of
  its tag, and leaves every \<^verbatim>\<open>struct buf\<close> of the cache as it was; and \<^verbatim>\<open>brelse\<close>
  returns without a panic.
\<close>

theorem bwrite_brelse_need_lock:
  "(\<not> holdingsleep p b s \<longrightarrow>
      bwrite p b s = Inl ''bwrite'' \<and> brelse p b s = Inl ''brelse'') \<and>
   (holdingsleep p b s \<longrightarrow>
      (\<exists>t. bwrite p b s = Inr t \<and> bufs t = bufs s \<and>
           disk t = (disk s)((dev (bufs s b), blockno (bufs s b)) := data (bufs s b)) \<and>
           io t = io s @ [(True, dev (bufs s b), blockno (bufs s b))]) \<and>
      (\<exists>t. brelse p b s = Inr t))"
  by (simp add: bwrite_def brelse_def virtio_disk_rw_def Let_def)

theorem bwrite_brelse_need_lock_witness:
  "bwrite 8 (Buffer 0) held1 = Inl ''bwrite'' \<and> brelse 8 (Buffer 0) held1 = Inl ''brelse'' \<and>
   (\<exists>t. bwrite 7 (Buffer 0) held1 = Inr t \<and> bufs t = bufs held1 \<and>
        disk t (0, 0) = [1, 2, 3] \<and> io t = [(True, 0, 0)]) \<and>
   (\<exists>t. brelse 7 (Buffer 0) held1 = Inr t)"
proof -
  have h: "holdingsleep 7 (Buffer 0) held1" by (simp add: holdingsleep_def held1_def)
  have n: "\<not> holdingsleep 8 (Buffer 0) held1" by (simp add: holdingsleep_def held1_def)
  have f: "dev (bufs held1 (Buffer 0)) = 0" "blockno (bufs held1 (Buffer 0)) = 0"
    "data (bufs held1 (Buffer 0)) = [1, 2, 3]" "io held1 = []"
    by (simp_all add: held1_def bio0_def zero_buf_def)
  note a = bwrite_brelse_need_lock [of 8 "Buffer 0" held1, THEN conjunct1, rule_format, OF n]
  note b = bwrite_brelse_need_lock [of 7 "Buffer 0" held1, THEN conjunct2, rule_format, OF h]
  show ?thesis using a b by (auto simp: f)
qed

subsection \<open>Frame of brelse\<close>

lemma move_frame:
  assumes lay: "layout S s L" and k: "k < NBUCKETS" and j: "j \<in> set (L k)"
    and i: "i < NBUCKETS" "i \<noteq> k"
    and x: "x \<in> insert (Hashbucket i) (Buffer ` set (L i))"
  shows "nx (push_front (Hashbucket k) (Buffer j) (unlink (Buffer j) s)) x = nx s x"
    and "pv (push_front (Hashbucket k) (Buffer j) (unlink (Buffer j) s)) x = pv s x"
proof -
  let ?b = "Buffer j"
  let ?h = "Hashbucket k"
  let ?u = "unlink ?b s"
  have rk: "ring s k (L k)" by (rule layoutD(1) [OF lay k])
  have dis: "set (L k) \<inter> set (L i) = {}" using layoutD(2) [OF lay k i(1)] i(2) by auto
  have bi: "?b \<in> insert ?h (Buffer ` set (L k))" using j by simp
  have hi: "?h \<in> insert ?h (Buffer ` set (L k))" by simp
  note out = nodes_disjoint [OF dis i(2) [symmetric], of _ ] 
  have x1: "x \<noteq> ?b" using out [OF bi] x by auto
  have x2: "x \<noteq> ?h" using out [OF hi] x by auto
  have x3: "x \<noteq> pv s ?b" using out [OF ring_nodes(2) [OF rk bi]] x by auto
  have x4: "x \<noteq> nx s ?b" using out [OF ring_nodes(1) [OF rk bi]] x by auto
  have x5: "x \<noteq> nx s ?h" using out [OF ring_nodes(1) [OF rk hi]] x by auto
  have x6: "x \<noteq> nx ?u ?h" using x4 x5 by (simp add: nx_unlink)
  show "nx (push_front ?h ?b ?u) x = nx s x"
    using x1 x2 x3 by (simp add: nx_push_front nx_unlink)
  show "pv (push_front ?h ?b ?u) x = pv s x"
    using x1 x4 x6 by (simp add: pv_push_front pv_unlink)
qed

text \<open>
  Claim C8. For a pool buffer \<open>j\<close> whose sleep-lock the caller \<open>p\<close> holds, in a
  cache whose lists are well formed (\<open>L\<close> gives the list of every bucket) and in
  which the buffer lies in the bucket of its block number, \<^verbatim>\<open>brelse\<close> returns a state
  \<open>t\<close> in which the reference count of the buffer is one less. If the count
  reached zero (it was 1), the buffer is now the head of its bucket's list and the
  rest of that list keeps its order. Otherwise no \<^verbatim>\<open>next\<close> or \<^verbatim>\<open>prev\<close> pointer
  changed and the lists are the same. In both cases the tag and the validity flag
  of every buffer are unchanged, every other bucket has the same list, and no
  pointer of a node of another bucket changed.
\<close>

theorem brelse_moves_only_on_last_release:
  assumes "lists_ok n s L" "home_ok s L" "j < n" "holdingsleep p (Buffer j) s"
  shows "\<exists>t. brelse p (Buffer j) s = Inr t \<and>
     refcnt (bufs t (Buffer j)) = refcnt (bufs s (Buffer j)) - 1 \<and>
     (refcnt (bufs s (Buffer j)) = 1 \<longrightarrow>
        lists_ok n t (L(unat (blockno (bufs s (Buffer j)) mod 13) :=
                    j # remove1 j (L (unat (blockno (bufs s (Buffer j)) mod 13)))))) \<and>
     (refcnt (bufs s (Buffer j)) \<noteq> 1 \<longrightarrow>
        lists_ok n t L \<and> nx t = nx s \<and> pv t = pv s) \<and>
     (\<forall>x. dev (bufs t x) = dev (bufs s x) \<and> blockno (bufs t x) = blockno (bufs s x) \<and>
          valid (bufs t x) = valid (bufs s x)) \<and>
     (\<forall>i<NBUCKETS. i \<noteq> unat (blockno (bufs s (Buffer j)) mod 13) \<longrightarrow>
        (\<forall>x \<in> insert (Hashbucket i) (Buffer ` set (L i)). nx t x = nx s x \<and> pv t x = pv s x))"
proof -
  let ?b = "Buffer j"
  let ?k = "unat (blockno (bufs s ?b) mod 13)"
  let ?s2 = "upd ?b (\<lambda>x. x\<lparr>refcnt := refcnt x - 1\<rparr>) (releasesleep ?b s)"
  obtain t where t: "brelse p ?b s = Inr t"
    using brelse_holding [OF assms(4)] by simp
  have l: "layout {..<n} s L" using assms(1) by (simp add: lists_ok_def)
  have kb: "?k < NBUCKETS" by (rule mod13_bucket)
  obtain i where i: "i < NBUCKETS" "j \<in> set (L i)" using layoutD(4) [OF l, of j] assms(3) by auto
  then have "?k = i" using assms(2) by (simp add: home_ok_def)
  then have jk: "j \<in> set (L ?k)" using i by simp
  note inv = brelse_inv [OF assms(1) jk t]
  have one: "lists_ok n t (L(?k := j # remove1 j (L ?k)))" if "refcnt (bufs s ?b) = 1"
    using inv(1) that by (simp add: release_layout_def Let_def)
  have more: "lists_ok n t L \<and> nx t = nx s \<and> pv t = pv s" if "refcnt (bufs s ?b) \<noteq> 1"
    using inv(1) that brelse_links_kept [OF t that] by (simp add: release_layout_def Let_def)
  have frame: "nx t x = nx s x \<and> pv t x = pv s x"
    if i: "i < NBUCKETS" "i \<noteq> ?k" and x: "x \<in> insert (Hashbucket i) (Buffer ` set (L i))" for i x
  proof (cases "refcnt (bufs s ?b) = 1")
    case False
    then show ?thesis using more by simp
  next
    case True
    have te: "t = push_front (Hashbucket ?k) ?b (unlink ?b ?s2)"
      using t brelse_holding [OF assms(4)] True by simp
    have l2: "layout {..<n} ?s2 L" using l by (simp add: layout_meta [of ?s2 s])
    show ?thesis unfolding te using move_frame [OF l2 kb jk i x] by simp
  qed
  show ?thesis
    using t one more frame by (auto simp: brelse_fields [OF t])
qed

lemma moved3_ok:
  "lists_ok 3 moved3 (\<lambda>i. if i = 0 then [2, 1] else if i = 5 then [0] else [])"
proof -
  let ?s = "binit 3 bio0"
  let ?L = "\<lambda>i::nat. if i = 0 then [2, 1, 0::nat] else []"
  have "(\<lambda>i. if i = 0 then rev [0..<3] else []) = ?L"
    by (rule ext) (simp add: upt_rec)
  then have l: "lists_ok 3 ?s ?L"
    using binit_layout_ok [of 3 bio0]
    by (simp add: lists_ok_def binit_layout_zeroed [OF zeroed_bio0])
  have u: "[0..<NBUCKETS] = 0 # [1..<NBUCKETS]"
    by (simp add: NBUCKETS_def upt_conv_Cons)
  have c: "find (cached ?s 0 5) (?L (unat ((5::32 word) mod 13))) = None" by simp
  have v: "victim ?s ?L (unat ((5::32 word) mod 13)) [0..<NBUCKETS] = Some (0, 0)"
    unfolding u by (simp add: unused_def bio0_def zero_buf_def)
  have e: "(?L(0 := remove1 0 (?L 0)))(unat ((5::32 word) mod 13) := 0 # ?L (unat ((5::32 word) mod 13)))
      = (\<lambda>i. if i = 0 then [2, 1] else if i = 5 then [0] else [])"
    by (rule ext) simp
  have m: "unat ((5::32 word) mod 13) = 5" by simp
  show ?thesis
    using steal_inv(1) [OF l refl c v, unfolded e, unfolded m] unfolding moved3_def .
qed

lemma held3_ok:
  "lists_ok 3 held3 (\<lambda>i. if i = 0 then [2, 1] else if i = 5 then [0] else [])"
  using moved3_ok by (simp add: held3_def lists_ok_def layout_upd)

lemma held3_fields [simp]:
  "blockno (bufs held3 (Buffer 0)) = 5" "blockno (bufs held3 (Buffer 1)) = 0"
  "blockno (bufs held3 (Buffer 2)) = 0" "refcnt (bufs held3 (Buffer 1)) = 1"
  "refcnt (bufs held3 (Buffer 2)) = 2" "lock (bufs held3 (Buffer 1)) = Some 7"
  "lock (bufs held3 (Buffer 2)) = Some 7" "blockno (bufs held3 (Buffer (Suc 0))) = 0"
  "refcnt (bufs held3 (Buffer (Suc 0))) = 1" "lock (bufs held3 (Buffer (Suc 0))) = Some 7"
  by (simp_all add: held3_def moved3_def bufs_retag bio0_def zero_buf_def)

theorem brelse_moves_only_on_last_release_witness:
  "lists_ok 3 held3 (\<lambda>i. if i = 0 then [2, 1] else if i = 5 then [0] else []) \<and>
   refcnt (bufs held3 (Buffer 1)) = 1 \<and> refcnt (bufs held3 (Buffer 2)) = 2 \<and>
   (\<exists>t. brelse 7 (Buffer 1) held3 = Inr t \<and> refcnt (bufs t (Buffer 1)) = 0 \<and>
        lists_ok 3 t (\<lambda>i. if i = 0 then [1, 2] else if i = 5 then [0] else []) \<and>
        nx t (Hashbucket 5) = nx held3 (Hashbucket 5) \<and>
        pv t (Hashbucket 5) = pv held3 (Hashbucket 5) \<and>
        nx t (Buffer 0) = nx held3 (Buffer 0) \<and> pv t (Buffer 0) = pv held3 (Buffer 0) \<and>
        blockno (bufs t (Buffer 1)) = 0) \<and>
   (\<exists>t. brelse 7 (Buffer 2) held3 = Inr t \<and> refcnt (bufs t (Buffer 2)) = 1 \<and>
        lists_ok 3 t (\<lambda>i. if i = 0 then [2, 1] else if i = 5 then [0] else []) \<and>
        nx t = nx held3 \<and> pv t = pv held3)"
proof -
  let ?L = "\<lambda>i::nat. if i = 0 then [2, 1] else if i = 5 then [0::nat] else []"
  have h: "home_ok held3 ?L" by (simp add: home_ok_def)
  have k: "holdingsleep 7 (Buffer 1) held3" "holdingsleep 7 (Buffer 2) held3"
    by (simp_all add: holdingsleep_def)
  have e: "?L(0 := 1 # remove1 1 (?L 0)) = (\<lambda>i. if i = 0 then [1, 2] else if i = 5 then [0] else [])"
    by (rule ext) simp
  have j: "(1::nat) < 3" "(2::nat) < 3" by simp_all
  from brelse_moves_only_on_last_release [OF held3_ok h j(1) k(1)]
  obtain t where t: "brelse 7 (Buffer 1) held3 = Inr t"
    "refcnt (bufs t (Buffer 1)) = refcnt (bufs held3 (Buffer 1)) - 1"
    "refcnt (bufs held3 (Buffer 1)) = 1 \<longrightarrow>
       lists_ok 3 t (?L(unat (blockno (bufs held3 (Buffer 1)) mod 13) :=
                    1 # remove1 1 (?L (unat (blockno (bufs held3 (Buffer 1)) mod 13)))))"
    "\<forall>x. dev (bufs t x) = dev (bufs held3 x) \<and> blockno (bufs t x) = blockno (bufs held3 x) \<and>
          valid (bufs t x) = valid (bufs held3 x)"
    "\<forall>i<NBUCKETS. i \<noteq> unat (blockno (bufs held3 (Buffer 1)) mod 13) \<longrightarrow>
        (\<forall>x \<in> insert (Hashbucket i) (Buffer ` set (?L i)).
           nx t x = nx held3 x \<and> pv t x = pv held3 x)"
    by (elim exE conjE) (rule that, assumption+)
  have t3: "lists_ok 3 t (\<lambda>i. if i = 0 then [1, 2] else if i = 5 then [0] else [])"
    using t(3) e by simp
  have t5: "nx t x = nx held3 x \<and> pv t x = pv held3 x"
    if "x = Hashbucket 5 \<or> x = Buffer 0" for x
    using t(5) [rule_format, of 5 x] that by (auto simp: NBUCKETS_def)
  have a: "\<exists>t. brelse 7 (Buffer 1) held3 = Inr t \<and> refcnt (bufs t (Buffer 1)) = 0 \<and>
        lists_ok 3 t (\<lambda>i. if i = 0 then [1, 2] else if i = 5 then [0] else []) \<and>
        nx t (Hashbucket 5) = nx held3 (Hashbucket 5) \<and>
        pv t (Hashbucket 5) = pv held3 (Hashbucket 5) \<and>
        nx t (Buffer 0) = nx held3 (Buffer 0) \<and> pv t (Buffer 0) = pv held3 (Buffer 0) \<and>
        blockno (bufs t (Buffer 1)) = 0"
    using t(1,2,4) t3 t5 [of "Hashbucket 5"] t5 [of "Buffer 0"]
    by (intro exI [of _ t]) simp
  from brelse_moves_only_on_last_release [OF held3_ok h j(2) k(2)]
  obtain v where v: "brelse 7 (Buffer 2) held3 = Inr v"
    "refcnt (bufs v (Buffer 2)) = refcnt (bufs held3 (Buffer 2)) - 1"
    "refcnt (bufs held3 (Buffer 2)) \<noteq> 1 \<longrightarrow>
        lists_ok 3 v ?L \<and> nx v = nx held3 \<and> pv v = pv held3"
    by (elim exE conjE) (rule that, assumption+)
  have b: "\<exists>t. brelse 7 (Buffer 2) held3 = Inr t \<and> refcnt (bufs t (Buffer 2)) = 1 \<and>
        lists_ok 3 t ?L \<and> nx t = nx held3 \<and> pv t = pv held3"
    using v by (intro exI [of _ v]) simp
  show ?thesis using held3_ok a b by simp
qed

subsection \<open>The four outcomes of bget\<close>

lemma find_rev_split:
  "find P (rev xs) = Some j \<Longrightarrow> \<exists>as bs. xs = as @ j # bs \<and> P j \<and> (\<forall>x\<in>set bs. \<not> P x)"
proof (induction xs rule: rev_induct)
  case Nil
  then show ?case by simp
next
  case (snoc x xs)
  show ?case
  proof (cases "P x")
    case True
    with snoc.prems have "x = j" by simp
    with True have "xs @ [x] = xs @ j # [] \<and> P j \<and> (\<forall>x\<in>set []. \<not> P x)" by simp
    then show ?thesis by blast
  next
    case False
    with snoc.prems have "find P (rev xs) = Some j" by simp
    from snoc.IH [OF this] obtain as bs where
      "xs = as @ j # bs" "P j" "\<forall>x\<in>set bs. \<not> P x" by blast
    with False have "xs @ [x] = as @ j # (bs @ [x]) \<and> P j \<and> (\<forall>y\<in>set (bs @ [x]). \<not> P y)"
      by simp
    then show ?thesis by blast
  qed
qed

lemma victim_char:
  assumes "victim s L home [0..<NBUCKETS] = Some (k, j)"
  shows "k < NBUCKETS \<and> k \<noteq> home \<and>
     (\<forall>k'<k. k' \<noteq> home \<longrightarrow> (\<forall>j'\<in>set (L k'). \<not> unused s j')) \<and>
     (\<exists>as bs. L k = as @ j # bs \<and> unused s j \<and> (\<forall>j'\<in>set bs. \<not> unused s j'))"
proof -
  note d = victim_SomeD [OF assms]
  have kb: "k < NBUCKETS" using d by simp
  have sp: "[0..<NBUCKETS] = [0..<k] @ k # [Suc k..<NBUCKETS]"
  proof -
    have "[0..<k + (NBUCKETS - k)] = [0..<k] @ [k..<k + (NBUCKETS - k)]"
      by (rule upt_add_eq_append) simp
    moreover have "k + (NBUCKETS - k) = NBUCKETS" using kb by simp
    moreover have "[k..<NBUCKETS] = k # [Suc k..<NBUCKETS]" using kb by (rule upt_conv_Cons)
    ultimately show ?thesis by simp
  qed
  have "\<forall>k'\<in>set [0..<k]. k' \<noteq> home \<longrightarrow> (\<forall>j'\<in>set (L k'). \<not> unused s j')"
    by (rule victim_first [of s L home "[0..<k]" k "[Suc k..<NBUCKETS]" j])
       (use assms sp in simp_all)
  then have first: "\<forall>k'<k. k' \<noteq> home \<longrightarrow> (\<forall>j'\<in>set (L k'). \<not> unused s j')" by simp
  from find_rev_split [of "unused s" "L k" j] d
  have "\<exists>as bs. L k = as @ j # bs \<and> unused s j \<and> (\<forall>j'\<in>set bs. \<not> unused s j')" by simp
  with kb d first show ?thesis by blast
qed

lemma acquiresleep_links:
  assumes "state_of (acquiresleep p b u) = Some t"
  shows "nx t = nx u \<and> pv t = pv u"
  using acquiresleep_fields(5,6) [OF assms] by (simp add: nx_def pv_def fun_eq_iff)

lemma acquiresleep_outcome:
  assumes "lists_ok n u L"
  shows "\<exists>r t. acquiresleep p b u = r \<and> state_of r = Some t \<and> yield r = Some b \<and>
     (lock (bufs u b) = None \<longrightarrow> r = Returns b t \<and> lock (bufs t b) = Some p) \<and>
     (lock (bufs u b) \<noteq> None \<longrightarrow> r = Sleeps b t \<and> lock (bufs t b) = lock (bufs u b)) \<and>
     lists_ok n t L \<and> (\<forall>x. x \<noteq> b \<longrightarrow> meta t x = meta u x) \<and>
     valid (bufs t b) = valid (bufs u b) \<and> dev (bufs t b) = dev (bufs u b) \<and>
     blockno (bufs t b) = blockno (bufs u b) \<and> refcnt (bufs t b) = refcnt (bufs u b) \<and>
     data (bufs t b) = data (bufs u b)"
proof (cases rule: acquiresleep_cases [of u b p])
  case free
  let ?t = "upd b (\<lambda>x. x\<lparr>lock := Some p\<rparr>) u"
  have "lists_ok n ?t L" using assms by (simp add: lists_ok_def layout_upd)
  then show ?thesis using free by (intro exI [of _ "Returns b ?t"] exI [of _ ?t]) (simp add: meta_def)
next
  case held
  then show ?thesis using assms by (intro exI [of _ "Sleeps b u"] exI [of _ u]) simp
qed

text \<open>
  Claim C1. In a cache whose bucket lists are well formed (\<open>L i\<close> is the list of
  bucket \<open>i\<close>, head first), \<^verbatim>\<open>bget(dev, blockno)\<close> called by process \<open>p\<close> terminates with
  exactly one of four outcomes, decided in this order on the home bucket
  \<open>blockno mod 13\<close>:
  \<^enum> the first buffer of the home list tagged \<open>(dev, blockno)\<close>, if there is one,
    gets its reference count incremented and nothing else changes: its tag, its
    validity flag and the bucket lists are as before;
  \<^enum> otherwise the first buffer of the home list with reference count zero, if
    there is one, ends with the tag \<open>(dev, blockno)\<close>, validity flag 0 and
    reference count 1, and it stays where it is;
  \<^enum> otherwise the other buckets are visited in ascending order, each list is
    scanned from its tail, and the first buffer found with count zero ends with
    the tag \<open>(dev, blockno)\<close>, validity flag 0 and reference count 1, is taken out
    of its list and put at the head of the home list;
  \<^enum> otherwise the call panics with "bget: no buffers".

  In the first three cases the call ends in \<^verbatim>\<open>acquiresleep\<close> on the chosen buffer:
  it returns the buffer with the sleep-lock held by \<open>p\<close> if the lock is free, and
  otherwise the caller sleeps on that lock, the state being already updated. In
  the final state \<open>t\<close> of each of these cases the payload of the chosen buffer and
  all fields of every other buffer, apart from the list pointers, are as before.
\<close>

theorem bget_four_outcomes:
  assumes "lists_ok n s L"
  shows
   "(\<forall>j. find (cached s d bn) (L (unat (bn mod 13))) = Some j \<longrightarrow>
        bget p d bn s =
          Some (acquiresleep p (Buffer j) (upd (Buffer j) (\<lambda>x. x\<lparr>refcnt := refcnt x + 1\<rparr>) s)) \<and>
        lists_ok n (upd (Buffer j) (\<lambda>x. x\<lparr>refcnt := refcnt x + 1\<rparr>) s) L \<and>
        (\<exists>r t. bget p d bn s = Some r \<and> state_of r = Some t \<and> yield r = Some (Buffer j) \<and>
           (lock (bufs s (Buffer j)) = None \<longrightarrow>
              r = Returns (Buffer j) t \<and> lock (bufs t (Buffer j)) = Some p) \<and>
           (lock (bufs s (Buffer j)) \<noteq> None \<longrightarrow>
              r = Sleeps (Buffer j) t \<and> lock (bufs t (Buffer j)) = lock (bufs s (Buffer j))) \<and>
           refcnt (bufs t (Buffer j)) = refcnt (bufs s (Buffer j)) + 1 \<and>
           dev (bufs t (Buffer j)) = d \<and> blockno (bufs t (Buffer j)) = bn \<and>
           dev (bufs s (Buffer j)) = d \<and> blockno (bufs s (Buffer j)) = bn \<and>
           valid (bufs t (Buffer j)) = valid (bufs s (Buffer j)) \<and>
           data (bufs t (Buffer j)) = data (bufs s (Buffer j)) \<and>
           (\<forall>x. x \<noteq> Buffer j \<longrightarrow> meta t x = meta s x) \<and>
           nx t = nx s \<and> pv t = pv s \<and> lists_ok n t L)) \<and>
    (\<forall>j. find (cached s d bn) (L (unat (bn mod 13))) = None \<and>
         find (unused s) (L (unat (bn mod 13))) = Some j \<longrightarrow>
        bget p d bn s = Some (acquiresleep p (Buffer j) (retag d bn (Buffer j) s)) \<and>
        lists_ok n (retag d bn (Buffer j) s) L \<and>
        (\<exists>r t. bget p d bn s = Some r \<and> state_of r = Some t \<and> yield r = Some (Buffer j) \<and>
           (lock (bufs s (Buffer j)) = None \<longrightarrow>
              r = Returns (Buffer j) t \<and> lock (bufs t (Buffer j)) = Some p) \<and>
           (lock (bufs s (Buffer j)) \<noteq> None \<longrightarrow>
              r = Sleeps (Buffer j) t \<and> lock (bufs t (Buffer j)) = lock (bufs s (Buffer j))) \<and>
           refcnt (bufs s (Buffer j)) = 0 \<and>
           dev (bufs t (Buffer j)) = d \<and> blockno (bufs t (Buffer j)) = bn \<and>
           valid (bufs t (Buffer j)) = 0 \<and> refcnt (bufs t (Buffer j)) = 1 \<and>
           data (bufs t (Buffer j)) = data (bufs s (Buffer j)) \<and>
           (\<forall>x. x \<noteq> Buffer j \<longrightarrow> meta t x = meta s x) \<and>
           nx t = nx s \<and> pv t = pv s \<and> lists_ok n t L)) \<and>
    (\<forall>k j. find (cached s d bn) (L (unat (bn mod 13))) = None \<and>
         find (unused s) (L (unat (bn mod 13))) = None \<and>
         victim s L (unat (bn mod 13)) [0..<NBUCKETS] = Some (k, j) \<longrightarrow>
        bget p d bn s =
          Some (acquiresleep p (Buffer j)
                 (push_front (Hashbucket (unat (bn mod 13))) (Buffer j)
                    (unlink (Buffer j) (retag d bn (Buffer j) s)))) \<and>
        lists_ok n (push_front (Hashbucket (unat (bn mod 13))) (Buffer j)
                      (unlink (Buffer j) (retag d bn (Buffer j) s)))
          ((L(k := remove1 j (L k)))(unat (bn mod 13) := j # L (unat (bn mod 13)))) \<and>
        meta (push_front (Hashbucket (unat (bn mod 13))) (Buffer j)
                (unlink (Buffer j) (retag d bn (Buffer j) s))) =
          meta (retag d bn (Buffer j) s) \<and>
        k < NBUCKETS \<and> k \<noteq> unat (bn mod 13) \<and>
        (\<forall>k'<k. k' \<noteq> unat (bn mod 13) \<longrightarrow> (\<forall>j'\<in>set (L k'). \<not> unused s j')) \<and>
        (\<exists>as bs. L k = as @ j # bs \<and> unused s j \<and> (\<forall>j'\<in>set bs. \<not> unused s j')) \<and>
        (\<exists>r t. bget p d bn s = Some r \<and> state_of r = Some t \<and> yield r = Some (Buffer j) \<and>
           (lock (bufs s (Buffer j)) = None \<longrightarrow>
              r = Returns (Buffer j) t \<and> lock (bufs t (Buffer j)) = Some p) \<and>
           (lock (bufs s (Buffer j)) \<noteq> None \<longrightarrow>
              r = Sleeps (Buffer j) t \<and> lock (bufs t (Buffer j)) = lock (bufs s (Buffer j))) \<and>
           refcnt (bufs s (Buffer j)) = 0 \<and>
           dev (bufs t (Buffer j)) = d \<and> blockno (bufs t (Buffer j)) = bn \<and>
           valid (bufs t (Buffer j)) = 0 \<and> refcnt (bufs t (Buffer j)) = 1 \<and>
           data (bufs t (Buffer j)) = data (bufs s (Buffer j)) \<and>
           (\<forall>x. x \<noteq> Buffer j \<longrightarrow> meta t x = meta s x) \<and>
           lists_ok n t
             ((L(k := remove1 j (L k)))(unat (bn mod 13) := j # L (unat (bn mod 13)))))) \<and>
    (find (cached s d bn) (L (unat (bn mod 13))) = None \<and>
     find (unused s) (L (unat (bn mod 13))) = None \<and>
     victim s L (unat (bn mod 13)) [0..<NBUCKETS] = None \<longrightarrow>
        bget p d bn s = Some (Panic ''bget: no buffers'')) \<and>
    (victim s L (unat (bn mod 13)) [0..<NBUCKETS] = None \<longleftrightarrow>
       (\<forall>k<NBUCKETS. k \<noteq> unat (bn mod 13) \<longrightarrow> (\<forall>j\<in>set (L k). \<not> unused s j))) \<and>
    (\<forall>b u. acquiresleep p b u =
       (if lock (bufs u b) = None then Returns b (upd b (\<lambda>x. x\<lparr>lock := Some p\<rparr>) u)
        else Sleeps b u))"
proof -
  let ?h = "unat (bn mod 13)"
  have r: "ring s k (L k)" if "k < NBUCKETS" for k
    using assms that by (simp add: lists_ok_def layout_def)
  have eq: "bget p d bn s = Some (acquire_spec L p d bn s)"
    by (rule bget_refines) (rule r)
  have 1: "\<forall>j. find (cached s d bn) (L ?h) = Some j \<longrightarrow>
        bget p d bn s =
          Some (acquiresleep p (Buffer j) (upd (Buffer j) (\<lambda>x. x\<lparr>refcnt := refcnt x + 1\<rparr>) s)) \<and>
        lists_ok n (upd (Buffer j) (\<lambda>x. x\<lparr>refcnt := refcnt x + 1\<rparr>) s) L \<and>
        (\<exists>r t. bget p d bn s = Some r \<and> state_of r = Some t \<and> yield r = Some (Buffer j) \<and>
           (lock (bufs s (Buffer j)) = None \<longrightarrow>
              r = Returns (Buffer j) t \<and> lock (bufs t (Buffer j)) = Some p) \<and>
           (lock (bufs s (Buffer j)) \<noteq> None \<longrightarrow>
              r = Sleeps (Buffer j) t \<and> lock (bufs t (Buffer j)) = lock (bufs s (Buffer j))) \<and>
           refcnt (bufs t (Buffer j)) = refcnt (bufs s (Buffer j)) + 1 \<and>
           dev (bufs t (Buffer j)) = d \<and> blockno (bufs t (Buffer j)) = bn \<and>
           dev (bufs s (Buffer j)) = d \<and> blockno (bufs s (Buffer j)) = bn \<and>
           valid (bufs t (Buffer j)) = valid (bufs s (Buffer j)) \<and>
           data (bufs t (Buffer j)) = data (bufs s (Buffer j)) \<and>
           (\<forall>x. x \<noteq> Buffer j \<longrightarrow> meta t x = meta s x) \<and>
           nx t = nx s \<and> pv t = pv s \<and> lists_ok n t L)"
  proof (intro allI impI)
    fix j assume f: "find (cached s d bn) (L ?h) = Some j"
    let ?u = "upd (Buffer j) (\<lambda>x. x\<lparr>refcnt := refcnt x + 1\<rparr>) s"
    have a: "acquire_spec L p d bn s = acquiresleep p (Buffer j) ?u"
      using f by (simp add: acquire_spec_def)
    have g: "bget p d bn s = Some (acquiresleep p (Buffer j) ?u)" using eq a by simp
    have lu: "lists_ok n ?u L" by (rule hit_inv(1) [OF assms mod13_bucket f])
    have c: "dev (bufs s (Buffer j)) = d" "blockno (bufs s (Buffer j)) = bn"
      using find_SomeD [OF f] by (simp_all add: cached_def)
    from acquiresleep_outcome [OF lu, of p "Buffer j"] obtain r t where
      rt: "acquiresleep p (Buffer j) ?u = r" "state_of r = Some t" "yield r = Some (Buffer j)"
        "lock (bufs ?u (Buffer j)) = None \<longrightarrow>
           r = Returns (Buffer j) t \<and> lock (bufs t (Buffer j)) = Some p"
        "lock (bufs ?u (Buffer j)) \<noteq> None \<longrightarrow>
           r = Sleeps (Buffer j) t \<and> lock (bufs t (Buffer j)) = lock (bufs ?u (Buffer j))"
        "lists_ok n t L" "\<forall>x. x \<noteq> Buffer j \<longrightarrow> meta t x = meta ?u x"
        "valid (bufs t (Buffer j)) = valid (bufs ?u (Buffer j))"
        "dev (bufs t (Buffer j)) = dev (bufs ?u (Buffer j))"
        "blockno (bufs t (Buffer j)) = blockno (bufs ?u (Buffer j))"
        "refcnt (bufs t (Buffer j)) = refcnt (bufs ?u (Buffer j))"
        "data (bufs t (Buffer j)) = data (bufs ?u (Buffer j))"
      by (elim exE conjE) (rule that, assumption+)
    have e1: "bget p d bn s = Some r" using g rt(1) by simp
    have e2: "lock (bufs s (Buffer j)) = None \<longrightarrow>
        r = Returns (Buffer j) t \<and> lock (bufs t (Buffer j)) = Some p" using rt(4) by simp
    have e3: "lock (bufs s (Buffer j)) \<noteq> None \<longrightarrow>
        r = Sleeps (Buffer j) t \<and> lock (bufs t (Buffer j)) = lock (bufs s (Buffer j))"
      using rt(5) by simp
    have e4: "refcnt (bufs t (Buffer j)) = refcnt (bufs s (Buffer j)) + 1" using rt(11) by simp
    have e5: "dev (bufs t (Buffer j)) = d" "blockno (bufs t (Buffer j)) = bn"
      using rt(9,10) c by simp_all
    have e6: "valid (bufs t (Buffer j)) = valid (bufs s (Buffer j))"
      "data (bufs t (Buffer j)) = data (bufs s (Buffer j))" using rt(8,12) by simp_all
    have e7: "\<forall>x. x \<noteq> Buffer j \<longrightarrow> meta t x = meta s x" using rt(7) by (simp add: meta_def)
    have e8: "nx t = nx s" "pv t = pv s"
      using acquiresleep_links [of p "Buffer j" ?u t] rt(1,2)
      by (simp_all add: nx_upd_meta pv_upd_meta)
    show "bget p d bn s = Some (acquiresleep p (Buffer j) ?u) \<and> lists_ok n ?u L \<and>
        (\<exists>r t. bget p d bn s = Some r \<and> state_of r = Some t \<and> yield r = Some (Buffer j) \<and>
           (lock (bufs s (Buffer j)) = None \<longrightarrow>
              r = Returns (Buffer j) t \<and> lock (bufs t (Buffer j)) = Some p) \<and>
           (lock (bufs s (Buffer j)) \<noteq> None \<longrightarrow>
              r = Sleeps (Buffer j) t \<and> lock (bufs t (Buffer j)) = lock (bufs s (Buffer j))) \<and>
           refcnt (bufs t (Buffer j)) = refcnt (bufs s (Buffer j)) + 1 \<and>
           dev (bufs t (Buffer j)) = d \<and> blockno (bufs t (Buffer j)) = bn \<and>
           dev (bufs s (Buffer j)) = d \<and> blockno (bufs s (Buffer j)) = bn \<and>
           valid (bufs t (Buffer j)) = valid (bufs s (Buffer j)) \<and>
           data (bufs t (Buffer j)) = data (bufs s (Buffer j)) \<and>
           (\<forall>x. x \<noteq> Buffer j \<longrightarrow> meta t x = meta s x) \<and>
           nx t = nx s \<and> pv t = pv s \<and> lists_ok n t L)"
      by (intro conjI exI [of _ r] exI [of _ t])
        (rule g lu e1 rt(2) rt(3) e2 e3 e4 e5 c e6 e7 e8 rt(6))+
  qed
  have 2: "\<forall>j. find (cached s d bn) (L ?h) = None \<and> find (unused s) (L ?h) = Some j \<longrightarrow>
        bget p d bn s = Some (acquiresleep p (Buffer j) (retag d bn (Buffer j) s)) \<and>
        lists_ok n (retag d bn (Buffer j) s) L \<and>
        (\<exists>r t. bget p d bn s = Some r \<and> state_of r = Some t \<and> yield r = Some (Buffer j) \<and>
           (lock (bufs s (Buffer j)) = None \<longrightarrow>
              r = Returns (Buffer j) t \<and> lock (bufs t (Buffer j)) = Some p) \<and>
           (lock (bufs s (Buffer j)) \<noteq> None \<longrightarrow>
              r = Sleeps (Buffer j) t \<and> lock (bufs t (Buffer j)) = lock (bufs s (Buffer j))) \<and>
           refcnt (bufs s (Buffer j)) = 0 \<and>
           dev (bufs t (Buffer j)) = d \<and> blockno (bufs t (Buffer j)) = bn \<and>
           valid (bufs t (Buffer j)) = 0 \<and> refcnt (bufs t (Buffer j)) = 1 \<and>
           data (bufs t (Buffer j)) = data (bufs s (Buffer j)) \<and>
           (\<forall>x. x \<noteq> Buffer j \<longrightarrow> meta t x = meta s x) \<and>
           nx t = nx s \<and> pv t = pv s \<and> lists_ok n t L)"
  proof (intro allI impI)
    fix j assume f: "find (cached s d bn) (L ?h) = None \<and> find (unused s) (L ?h) = Some j"
    let ?u = "retag d bn (Buffer j) s"
    have a: "acquire_spec L p d bn s = acquiresleep p (Buffer j) ?u"
      using f by (simp add: acquire_spec_def)
    have g: "bget p d bn s = Some (acquiresleep p (Buffer j) ?u)" using eq a by simp
    have lu: "lists_ok n ?u L"
      by (rule recycle_inv(1) [OF assms refl]) (use f in simp_all)
    have z: "refcnt (bufs s (Buffer j)) = 0"
      using f find_SomeD [of "unused s" "L ?h" j] by (simp add: unused_def)
    from acquiresleep_outcome [OF lu, of p "Buffer j"] obtain r t where
      rt: "acquiresleep p (Buffer j) ?u = r" "state_of r = Some t" "yield r = Some (Buffer j)"
        "lock (bufs ?u (Buffer j)) = None \<longrightarrow>
           r = Returns (Buffer j) t \<and> lock (bufs t (Buffer j)) = Some p"
        "lock (bufs ?u (Buffer j)) \<noteq> None \<longrightarrow>
           r = Sleeps (Buffer j) t \<and> lock (bufs t (Buffer j)) = lock (bufs ?u (Buffer j))"
        "lists_ok n t L" "\<forall>x. x \<noteq> Buffer j \<longrightarrow> meta t x = meta ?u x"
        "valid (bufs t (Buffer j)) = valid (bufs ?u (Buffer j))"
        "dev (bufs t (Buffer j)) = dev (bufs ?u (Buffer j))"
        "blockno (bufs t (Buffer j)) = blockno (bufs ?u (Buffer j))"
        "refcnt (bufs t (Buffer j)) = refcnt (bufs ?u (Buffer j))"
        "data (bufs t (Buffer j)) = data (bufs ?u (Buffer j))"
      by (elim exE conjE) (rule that, assumption+)
    have e1: "bget p d bn s = Some r" using g rt(1) by simp
    have e2: "lock (bufs s (Buffer j)) = None \<longrightarrow>
        r = Returns (Buffer j) t \<and> lock (bufs t (Buffer j)) = Some p"
      using rt(4) by (simp add: bufs_retag)
    have e3: "lock (bufs s (Buffer j)) \<noteq> None \<longrightarrow>
        r = Sleeps (Buffer j) t \<and> lock (bufs t (Buffer j)) = lock (bufs s (Buffer j))"
      using rt(5) by (simp add: bufs_retag)
    have e5: "dev (bufs t (Buffer j)) = d" "blockno (bufs t (Buffer j)) = bn"
      "valid (bufs t (Buffer j)) = 0" "refcnt (bufs t (Buffer j)) = 1"
      "data (bufs t (Buffer j)) = data (bufs s (Buffer j))"
      using rt(8-12) by (simp_all add: bufs_retag)
    have e7: "\<forall>x. x \<noteq> Buffer j \<longrightarrow> meta t x = meta s x"
      using rt(7) by (simp add: meta_def bufs_retag)
    have e8: "nx t = nx s" "pv t = pv s"
      using acquiresleep_links [of p "Buffer j" ?u t] rt(1,2) by simp_all
    show "bget p d bn s = Some (acquiresleep p (Buffer j) ?u) \<and> lists_ok n ?u L \<and>
        (\<exists>r t. bget p d bn s = Some r \<and> state_of r = Some t \<and> yield r = Some (Buffer j) \<and>
           (lock (bufs s (Buffer j)) = None \<longrightarrow>
              r = Returns (Buffer j) t \<and> lock (bufs t (Buffer j)) = Some p) \<and>
           (lock (bufs s (Buffer j)) \<noteq> None \<longrightarrow>
              r = Sleeps (Buffer j) t \<and> lock (bufs t (Buffer j)) = lock (bufs s (Buffer j))) \<and>
           refcnt (bufs s (Buffer j)) = 0 \<and>
           dev (bufs t (Buffer j)) = d \<and> blockno (bufs t (Buffer j)) = bn \<and>
           valid (bufs t (Buffer j)) = 0 \<and> refcnt (bufs t (Buffer j)) = 1 \<and>
           data (bufs t (Buffer j)) = data (bufs s (Buffer j)) \<and>
           (\<forall>x. x \<noteq> Buffer j \<longrightarrow> meta t x = meta s x) \<and>
           nx t = nx s \<and> pv t = pv s \<and> lists_ok n t L)"
      by (intro conjI exI [of _ r] exI [of _ t])
        (rule g lu e1 rt(2) rt(3) e2 e3 z e5 e7 e8 rt(6))+
  qed
  have 3: "\<forall>k j. find (cached s d bn) (L ?h) = None \<and> find (unused s) (L ?h) = None \<and>
         victim s L ?h [0..<NBUCKETS] = Some (k, j) \<longrightarrow>
        bget p d bn s =
          Some (acquiresleep p (Buffer j)
                 (push_front (Hashbucket ?h) (Buffer j)
                    (unlink (Buffer j) (retag d bn (Buffer j) s)))) \<and>
        lists_ok n (push_front (Hashbucket ?h) (Buffer j)
                      (unlink (Buffer j) (retag d bn (Buffer j) s)))
          ((L(k := remove1 j (L k)))(?h := j # L ?h)) \<and>
        meta (push_front (Hashbucket ?h) (Buffer j)
                (unlink (Buffer j) (retag d bn (Buffer j) s))) =
          meta (retag d bn (Buffer j) s) \<and>
        k < NBUCKETS \<and> k \<noteq> ?h \<and>
        (\<forall>k'<k. k' \<noteq> ?h \<longrightarrow> (\<forall>j'\<in>set (L k'). \<not> unused s j')) \<and>
        (\<exists>as bs. L k = as @ j # bs \<and> unused s j \<and> (\<forall>j'\<in>set bs. \<not> unused s j')) \<and>
        (\<exists>r t. bget p d bn s = Some r \<and> state_of r = Some t \<and> yield r = Some (Buffer j) \<and>
           (lock (bufs s (Buffer j)) = None \<longrightarrow>
              r = Returns (Buffer j) t \<and> lock (bufs t (Buffer j)) = Some p) \<and>
           (lock (bufs s (Buffer j)) \<noteq> None \<longrightarrow>
              r = Sleeps (Buffer j) t \<and> lock (bufs t (Buffer j)) = lock (bufs s (Buffer j))) \<and>
           refcnt (bufs s (Buffer j)) = 0 \<and>
           dev (bufs t (Buffer j)) = d \<and> blockno (bufs t (Buffer j)) = bn \<and>
           valid (bufs t (Buffer j)) = 0 \<and> refcnt (bufs t (Buffer j)) = 1 \<and>
           data (bufs t (Buffer j)) = data (bufs s (Buffer j)) \<and>
           (\<forall>x. x \<noteq> Buffer j \<longrightarrow> meta t x = meta s x) \<and>
           lists_ok n t ((L(k := remove1 j (L k)))(?h := j # L ?h)))"
  proof (intro allI impI)
    fix k j
    assume h: "find (cached s d bn) (L ?h) = None \<and> find (unused s) (L ?h) = None \<and>
         victim s L ?h [0..<NBUCKETS] = Some (k, j)"
    let ?u = "push_front (Hashbucket ?h) (Buffer j) (unlink (Buffer j) (retag d bn (Buffer j) s))"
    let ?L = "(L(k := remove1 j (L k)))(?h := j # L ?h)"
    have v: "victim s L ?h [0..<NBUCKETS] = Some (k, j)" using h by simp
    have c: "find (cached s d bn) (L ?h) = None" using h by simp
    have a: "acquire_spec L p d bn s = acquiresleep p (Buffer j) ?u"
      using h by (simp add: acquire_spec_def)
    have g: "bget p d bn s = Some (acquiresleep p (Buffer j) ?u)" using eq a by simp
    have m: "meta ?u = meta (retag d bn (Buffer j) s)"
      by (simp add: meta_push_front meta_unlink)
    have lu: "lists_ok n ?u ?L" by (rule steal_inv(1) [OF assms refl c v])
    note vc = victim_char [OF v]
    have v1: "k < NBUCKETS" and v2: "k \<noteq> ?h"
      and v3: "\<forall>k'<k. k' \<noteq> ?h \<longrightarrow> (\<forall>j'\<in>set (L k'). \<not> unused s j')"
      and v4: "\<exists>as bs. L k = as @ j # bs \<and> unused s j \<and> (\<forall>j'\<in>set bs. \<not> unused s j')"
      using vc by simp_all
    have z: "refcnt (bufs s (Buffer j)) = 0" using v4 by (auto simp: unused_def)
    from acquiresleep_outcome [OF lu, of p "Buffer j"] obtain r t where
      rt: "acquiresleep p (Buffer j) ?u = r" "state_of r = Some t" "yield r = Some (Buffer j)"
        "lock (bufs ?u (Buffer j)) = None \<longrightarrow>
           r = Returns (Buffer j) t \<and> lock (bufs t (Buffer j)) = Some p"
        "lock (bufs ?u (Buffer j)) \<noteq> None \<longrightarrow>
           r = Sleeps (Buffer j) t \<and> lock (bufs t (Buffer j)) = lock (bufs ?u (Buffer j))"
        "lists_ok n t ?L" "\<forall>x. x \<noteq> Buffer j \<longrightarrow> meta t x = meta ?u x"
        "valid (bufs t (Buffer j)) = valid (bufs ?u (Buffer j))"
        "dev (bufs t (Buffer j)) = dev (bufs ?u (Buffer j))"
        "blockno (bufs t (Buffer j)) = blockno (bufs ?u (Buffer j))"
        "refcnt (bufs t (Buffer j)) = refcnt (bufs ?u (Buffer j))"
        "data (bufs t (Buffer j)) = data (bufs ?u (Buffer j))"
      by (elim exE conjE) (rule that, assumption+)
    have e1: "bget p d bn s = Some r" using g rt(1) by simp
    have e2: "lock (bufs s (Buffer j)) = None \<longrightarrow>
        r = Returns (Buffer j) t \<and> lock (bufs t (Buffer j)) = Some p"
      using rt(4) by (simp add: bufs_retag)
    have e3: "lock (bufs s (Buffer j)) \<noteq> None \<longrightarrow>
        r = Sleeps (Buffer j) t \<and> lock (bufs t (Buffer j)) = lock (bufs s (Buffer j))"
      using rt(5) by (simp add: bufs_retag)
    have e5: "dev (bufs t (Buffer j)) = d" "blockno (bufs t (Buffer j)) = bn"
      "valid (bufs t (Buffer j)) = 0" "refcnt (bufs t (Buffer j)) = 1"
      "data (bufs t (Buffer j)) = data (bufs s (Buffer j))"
      using rt(8-12) by (simp_all add: bufs_retag)
    have e7: "\<forall>x. x \<noteq> Buffer j \<longrightarrow> meta t x = meta s x"
      using rt(7) unfolding m by (simp add: meta_def bufs_retag)
    show "bget p d bn s = Some (acquiresleep p (Buffer j) ?u) \<and> lists_ok n ?u ?L \<and>
        meta ?u = meta (retag d bn (Buffer j) s) \<and>
        k < NBUCKETS \<and> k \<noteq> ?h \<and>
        (\<forall>k'<k. k' \<noteq> ?h \<longrightarrow> (\<forall>j'\<in>set (L k'). \<not> unused s j')) \<and>
        (\<exists>as bs. L k = as @ j # bs \<and> unused s j \<and> (\<forall>j'\<in>set bs. \<not> unused s j')) \<and>
        (\<exists>r t. bget p d bn s = Some r \<and> state_of r = Some t \<and> yield r = Some (Buffer j) \<and>
           (lock (bufs s (Buffer j)) = None \<longrightarrow>
              r = Returns (Buffer j) t \<and> lock (bufs t (Buffer j)) = Some p) \<and>
           (lock (bufs s (Buffer j)) \<noteq> None \<longrightarrow>
              r = Sleeps (Buffer j) t \<and> lock (bufs t (Buffer j)) = lock (bufs s (Buffer j))) \<and>
           refcnt (bufs s (Buffer j)) = 0 \<and>
           dev (bufs t (Buffer j)) = d \<and> blockno (bufs t (Buffer j)) = bn \<and>
           valid (bufs t (Buffer j)) = 0 \<and> refcnt (bufs t (Buffer j)) = 1 \<and>
           data (bufs t (Buffer j)) = data (bufs s (Buffer j)) \<and>
           (\<forall>x. x \<noteq> Buffer j \<longrightarrow> meta t x = meta s x) \<and>
           lists_ok n t ?L)"
      by (intro conjI exI [of _ r] exI [of _ t])
        (rule g lu m v1 v2 v3 v4 e1 rt(2) rt(3) e2 e3 z e5 e7 rt(6))+
  qed
  have 4: "find (cached s d bn) (L ?h) = None \<and> find (unused s) (L ?h) = None \<and>
     victim s L ?h [0..<NBUCKETS] = None \<longrightarrow>
        bget p d bn s = Some (Panic ''bget: no buffers'')"
    using eq by (simp add: acquire_spec_def)
  have 5: "victim s L ?h [0..<NBUCKETS] = None \<longleftrightarrow>
       (\<forall>k<NBUCKETS. k \<noteq> ?h \<longrightarrow> (\<forall>j\<in>set (L k). \<not> unused s j))"
    by (auto simp: victim_None)
  have 6: "\<forall>b u. acquiresleep p b u =
       (if lock (bufs u b) = None then Returns b (upd b (\<lambda>x. x\<lparr>lock := Some p\<rparr>) u)
        else Sleeps b u)"
    by (simp add: acquiresleep_def)
  show ?thesis
    by (rule conjI [OF 1 conjI [OF 2 conjI [OF 3 conjI [OF 4 conjI [OF 5 6]]]]])
qed


lemma lists_ok_binit_zeroed:
  "zeroed s \<Longrightarrow> lists_ok n (binit n s) (\<lambda>i. if i = 0 then rev [0..<n] else [])"
  using binit_layout_ok [of n s] by (simp add: lists_ok_def binit_layout_zeroed)

lemma boot2: "lists_ok 2 (binit 2 bio0) (\<lambda>i. if i = 0 then [1, 0] else [])"
proof -
  have "(\<lambda>i. if i = 0 then rev [0..<2] else []) = (\<lambda>i::nat. if i = 0 then [1, 0::nat] else [])"
    by (rule ext) (simp add: upt_rec)
  then show ?thesis using lists_ok_binit_zeroed [OF zeroed_bio0, of 2] by simp
qed

lemma bio0_fields [simp]:
  "dev (bufs bio0 x) = 0" "blockno (bufs bio0 x) = 0" "refcnt (bufs bio0 x) = 0"
  "valid (bufs bio0 x) = 0" "lock (bufs bio0 x) = None"
  by (simp_all add: bio0_def zero_buf_def)

lemma boot1: "lists_ok 1 (binit 1 bio0) (\<lambda>i. if i = 0 then [0] else [])"
proof -
  have "(\<lambda>i. if i = 0 then rev [0..<1] else []) = (\<lambda>i::nat. if i = 0 then [0::nat] else [])"
    by (rule ext) simp
  then show ?thesis using lists_ok_binit_zeroed [OF zeroed_bio0, of 1] by simp
qed

lemma busy1_ok: "lists_ok 1 busy1 (\<lambda>i. if i = 0 then [0] else [])"
  using boot1 by (simp add: busy1_def lists_ok_def layout_upd)

lemma busy1_fields [simp]:
  "refcnt (bufs busy1 (Buffer 0)) = 1" "dev (bufs busy1 (Buffer 0)) = 0"
  "blockno (bufs busy1 (Buffer 0)) = 0" "lock (bufs busy1 (Buffer 0)) = Some 7"
  by (simp_all add: busy1_def)

lemma bget_boot1: "bget 7 0 0 (binit 1 bio0) = Some (Returns (Buffer 0) busy1)"
proof -
  have r: "ring (binit 1 bio0) k (if k = 0 then [0] else [])" if "k < NBUCKETS" for k
    using boot1 that by (simp add: lists_ok_def layout_def)
  have "bget 7 0 0 (binit 1 bio0) =
      Some (acquire_spec (\<lambda>i. if i = 0 then [0] else []) 7 0 0 (binit 1 bio0))"
    by (rule bget_refines) (rule r)
  then show ?thesis
    by (simp add: acquire_spec_def cached_def acquiresleep_def lock_binit busy1_def)
qed

lemma warm2_ok: "lists_ok 2 warm2 (\<lambda>i. if i = 0 then [1, 0] else [])"
  using boot2 by (simp add: warm2_def lists_ok_def layout_upd)

lemma warm2_fields [simp]:
  "k < 2 \<Longrightarrow> dev (bufs warm2 (Buffer k)) = 0" "k < 2 \<Longrightarrow> blockno (bufs warm2 (Buffer k)) = 0"
  "k < 2 \<Longrightarrow> refcnt (bufs warm2 (Buffer k)) = 0" "k < 2 \<Longrightarrow> valid (bufs warm2 (Buffer k)) = 1"
  "k < 2 \<Longrightarrow> lock (bufs warm2 (Buffer k)) = None"
  by (auto simp: warm2_def lock_binit less_2_cases_iff)

theorem bget_four_outcomes_witness:
  "valid (bufs warm2 (Buffer 0)) = 1 \<and> valid (bufs warm2 (Buffer 1)) = 1 \<and>
   (\<exists>t. bget 7 0 0 warm2 = Some (Returns (Buffer 1) t) \<and>
        refcnt (bufs t (Buffer 1)) = 1 \<and> lock (bufs t (Buffer 1)) = Some 7 \<and>
        dev (bufs t (Buffer 1)) = 0 \<and> blockno (bufs t (Buffer 1)) = 0 \<and>
        valid (bufs t (Buffer 1)) = 1 \<and>
        lists_ok 2 t (\<lambda>i. if i = 0 then [1, 0] else [])) \<and>
   (\<exists>t. bget 7 1 0 warm2 = Some (Returns (Buffer 1) t) \<and>
        dev (bufs t (Buffer 1)) = 1 \<and> blockno (bufs t (Buffer 1)) = 0 \<and>
        valid (bufs t (Buffer 1)) = 0 \<and> refcnt (bufs t (Buffer 1)) = 1 \<and>
        lock (bufs t (Buffer 1)) = Some 7 \<and>
        lists_ok 2 t (\<lambda>i. if i = 0 then [1, 0] else [])) \<and>
   (\<exists>t. bget 7 0 5 warm2 = Some (Returns (Buffer 0) t) \<and>
        dev (bufs t (Buffer 0)) = 0 \<and> blockno (bufs t (Buffer 0)) = 5 \<and>
        valid (bufs t (Buffer 0)) = 0 \<and> refcnt (bufs t (Buffer 0)) = 1 \<and>
        lock (bufs t (Buffer 0)) = Some 7 \<and>
        lists_ok 2 t (\<lambda>i. if i = 5 then [0] else if i = 0 then [1] else [])) \<and>
   bget 8 1 0 busy1 = Some (Panic ''bget: no buffers'')"
proof -
  let ?L = "\<lambda>i::nat. if i = 0 then [1, 0::nat] else []"
  note t = bget_four_outcomes [OF warm2_ok]
  \<comment> \<open>case 1: the block is cached\<close>
  have c1: "find (cached warm2 0 0) (?L (unat ((0::32 word) mod 13))) = Some 1"
    by (simp add: cached_def)
  from t [of 0 0 7, THEN conjunct1, rule_format, OF c1, THEN conjunct2, THEN conjunct2]
  obtain r1 t1 where 1: "bget 7 0 0 warm2 = Some r1"
    "lock (bufs warm2 (Buffer 1)) = None \<longrightarrow>
       r1 = Returns (Buffer 1) t1 \<and> lock (bufs t1 (Buffer 1)) = Some 7"
    "refcnt (bufs t1 (Buffer 1)) = refcnt (bufs warm2 (Buffer 1)) + 1"
    "dev (bufs t1 (Buffer 1)) = 0" "blockno (bufs t1 (Buffer 1)) = 0"
    "valid (bufs t1 (Buffer 1)) = valid (bufs warm2 (Buffer 1))"
    "lists_ok 2 t1 ?L"
    by (elim exE conjE) (rule that, assumption+)
  have w1: "\<exists>t. bget 7 0 0 warm2 = Some (Returns (Buffer 1) t) \<and>
        refcnt (bufs t (Buffer 1)) = 1 \<and> lock (bufs t (Buffer 1)) = Some 7 \<and>
        dev (bufs t (Buffer 1)) = 0 \<and> blockno (bufs t (Buffer 1)) = 0 \<and>
        valid (bufs t (Buffer 1)) = 1 \<and> lists_ok 2 t ?L"
    using 1 by (intro exI [of _ t1]) simp
  \<comment> \<open>case 2: an unused buffer of the home bucket is recycled\<close>
  have c2: "find (cached warm2 1 0) (?L (unat ((0::32 word) mod 13))) = None \<and>
      find (unused warm2) (?L (unat ((0::32 word) mod 13))) = Some 1"
    by (simp add: cached_def unused_def)
  from t [of 1 0 7, THEN conjunct2, THEN conjunct1, rule_format, OF c2, THEN conjunct2,
      THEN conjunct2]
  obtain r2 t2 where 2: "bget 7 1 0 warm2 = Some r2"
    "lock (bufs warm2 (Buffer 1)) = None \<longrightarrow>
       r2 = Returns (Buffer 1) t2 \<and> lock (bufs t2 (Buffer 1)) = Some 7"
    "dev (bufs t2 (Buffer 1)) = 1" "blockno (bufs t2 (Buffer 1)) = 0"
    "valid (bufs t2 (Buffer 1)) = 0" "refcnt (bufs t2 (Buffer 1)) = 1"
    "lists_ok 2 t2 ?L"
    by (elim exE conjE) (rule that, assumption+)
  have w2: "\<exists>t. bget 7 1 0 warm2 = Some (Returns (Buffer 1) t) \<and>
        dev (bufs t (Buffer 1)) = 1 \<and> blockno (bufs t (Buffer 1)) = 0 \<and>
        valid (bufs t (Buffer 1)) = 0 \<and> refcnt (bufs t (Buffer 1)) = 1 \<and>
        lock (bufs t (Buffer 1)) = Some 7 \<and> lists_ok 2 t ?L"
    using 2 by (intro exI [of _ t2]) simp
  \<comment> \<open>case 3: a buffer is taken from the tail of bucket 0\<close>
  have u: "[0..<NBUCKETS] = 0 # [1..<NBUCKETS]"
    by (simp add: NBUCKETS_def upt_conv_Cons)
  have c3: "find (cached warm2 0 5) (?L (unat ((5::32 word) mod 13))) = None \<and>
      find (unused warm2) (?L (unat ((5::32 word) mod 13))) = None \<and>
      victim warm2 ?L (unat ((5::32 word) mod 13)) [0..<NBUCKETS] = Some (0, 0)"
    unfolding u by (simp add: unused_def)
  have l3: "(?L(0 := remove1 0 (?L 0)))(unat ((5::32 word) mod 13) := 0 # ?L (unat ((5::32 word) mod 13)))
      = (\<lambda>i. if i = 5 then [0] else if i = 0 then [1] else [])"
    by (rule ext) simp
  from t [of 0 5 7, THEN conjunct2, THEN conjunct2, THEN conjunct1, rule_format, OF c3,
      THEN conjunct2, THEN conjunct2, THEN conjunct2, THEN conjunct2, THEN conjunct2,
      THEN conjunct2, THEN conjunct2, unfolded l3]
  obtain r3 t3 where 3: "bget 7 0 5 warm2 = Some r3"
    "lock (bufs warm2 (Buffer 0)) = None \<longrightarrow>
       r3 = Returns (Buffer 0) t3 \<and> lock (bufs t3 (Buffer 0)) = Some 7"
    "dev (bufs t3 (Buffer 0)) = 0" "blockno (bufs t3 (Buffer 0)) = 5"
    "valid (bufs t3 (Buffer 0)) = 0" "refcnt (bufs t3 (Buffer 0)) = 1"
    "lists_ok 2 t3 (\<lambda>i. if i = 5 then [0] else if i = 0 then [1] else [])"
    by (elim exE conjE) (rule that, assumption+)
  have w3: "\<exists>t. bget 7 0 5 warm2 = Some (Returns (Buffer 0) t) \<and>
        dev (bufs t (Buffer 0)) = 0 \<and> blockno (bufs t (Buffer 0)) = 5 \<and>
        valid (bufs t (Buffer 0)) = 0 \<and> refcnt (bufs t (Buffer 0)) = 1 \<and>
        lock (bufs t (Buffer 0)) = Some 7 \<and>
        lists_ok 2 t (\<lambda>i. if i = 5 then [0] else if i = 0 then [1] else [])"
    using 3 by (intro exI [of _ t3]) simp
  \<comment> \<open>case 4: the only buffer is referenced and holds another block\<close>
  have c4: "find (cached busy1 1 0) ((\<lambda>i. if i = 0 then [0] else []) (unat ((0::32 word) mod 13))) = None \<and>
     find (unused busy1) ((\<lambda>i. if i = 0 then [0] else []) (unat ((0::32 word) mod 13))) = None \<and>
     victim busy1 (\<lambda>i. if i = 0 then [0] else []) (unat ((0::32 word) mod 13)) [0..<NBUCKETS] = None"
    by (simp add: victim_None cached_def unused_def)
  note w4 = bget_four_outcomes [OF busy1_ok, of 1 0 8, THEN conjunct2, THEN conjunct2,
      THEN conjunct2, THEN conjunct1, rule_format, OF c4]
  have w0: "valid (bufs warm2 (Buffer 0)) = 1" "valid (bufs warm2 (Buffer 1)) = 1" by simp_all
  show ?thesis by (intro conjI) (rule w0 w1 w2 w3 w4)+
qed

subsection \<open>Exhaustion\<close>

lemma acquiresleep_not_Panic [simp]: "acquiresleep p b s \<noteq> Panic m"
  by (simp add: acquiresleep_def)

lemma bget_panic_iff:
  assumes "lists_ok n s L"
  shows "bget p d bn s = Some (Panic ''bget: no buffers'') \<longleftrightarrow>
     find (cached s d bn) (L (unat (bn mod 13))) = None \<and>
     (\<forall>i<NBUCKETS. \<forall>j\<in>set (L i). \<not> unused s j)"
proof -
  let ?h = "unat (bn mod 13)"
  have r: "ring s k (L k)" if "k < NBUCKETS" for k
    using assms that by (simp add: lists_ok_def layout_def)
  have eq: "bget p d bn s = Some (acquire_spec L p d bn s)"
    by (rule bget_refines) (rule r)
  have hb: "?h < NBUCKETS" by (rule mod13_bucket)
  have all: "(\<forall>i<NBUCKETS. \<forall>j\<in>set (L i). \<not> unused s j) \<longleftrightarrow>
      find (unused s) (L ?h) = None \<and> victim s L ?h [0..<NBUCKETS] = None"
  proof
    assume a: "\<forall>i<NBUCKETS. \<forall>j\<in>set (L i). \<not> unused s j"
    then show "find (unused s) (L ?h) = None \<and> victim s L ?h [0..<NBUCKETS] = None"
      using hb by (auto simp: victim_None find_None_iff)
  next
    assume b: "find (unused s) (L ?h) = None \<and> victim s L ?h [0..<NBUCKETS] = None"
    show "\<forall>i<NBUCKETS. \<forall>j\<in>set (L i). \<not> unused s j"
    proof (intro allI impI ballI)
      fix i j assume i: "i < NBUCKETS" and j: "j \<in> set (L i)"
      show "\<not> unused s j"
      proof (cases "i = ?h")
        case True
        then show ?thesis using b j by (auto simp: find_None_iff)
      next
        case False
        then show ?thesis using b i j by (auto simp: victim_None)
      qed
    qed
  qed
  show ?thesis unfolding eq all
    by (cases rule: acquire_spec_cases [of s d bn L p]) simp_all
qed

lemma bget_yields_pool:
  assumes l: "lists_ok n s L"
  shows "\<exists>r. bget p d bn s = Some r \<and>
     (r = Panic ''bget: no buffers'' \<or> (\<exists>j<n. \<exists>t. yield r = Some (Buffer j) \<and> state_of r = Some t))"
proof -
  have k: "ring s k (L k)" if "k < NBUCKETS" for k
    using l that by (simp add: lists_ok_def layout_def)
  have eq: "bget p d bn s = Some (acquire_spec L p d bn s)"
    by (rule bget_refines) (rule k)
  have hb: "unat (bn mod 13) < NBUCKETS" by (rule mod13_bucket)
  have m: "j < n" if "j \<in> set (L i)" "i < NBUCKETS" for i j
    using l that by (auto simp: lists_ok_def layout_def)
  have y: "\<exists>r. Some (acquiresleep p (Buffer j) u) = Some r \<and>
     (r = Panic ''bget: no buffers'' \<or> (\<exists>j<n. \<exists>t. yield r = Some (Buffer j) \<and> state_of r = Some t))"
    if "j < n" for j u
    using that acquiresleep_state [of p "Buffer j" u] by auto
  show ?thesis
  proof (cases rule: acquire_spec_cases [of s d bn L p])
    case (hit j)
    have "j < n" using find_SomeD [OF hit(1)] hb m by blast
    then show ?thesis unfolding eq hit(2) by (rule y)
  next
    case (recycle j)
    have "j < n" using find_SomeD [OF recycle(2)] hb m by blast
    then show ?thesis unfolding eq recycle(3) by (rule y)
  next
    case (steal k j)
    have "k < NBUCKETS \<and> j \<in> set (L k)"
      using victim_SomeD [OF steal(3)] find_SomeD [of "unused s" "rev (L k)" j] by auto
    then have "j < n" using m by blast
    then show ?thesis unfolding eq steal(4) by (rule y)
  next
    case exhausted
    then show ?thesis unfolding eq by simp
  qed
qed

text \<open>
  Claim C4. When every free list is empty, \<^verbatim>\<open>kalloc\<close> returns the null pointer
  and the unchanged state: an ordinary result. \<^verbatim>\<open>bget\<close> reaches its search for a
  buffer with reference count zero when the requested block is not cached in its
  home bucket; on well-formed lists it always terminates, and it panics exactly
  when that search finds no buffer with reference count zero in any bucket.
  There is no error value among its results: the only panic is
  "bget: no buffers", and every other outcome yields a buffer of the pool.
\<close>

theorem exhaustion_kalloc_returns_bget_panics:
  "(c < ncpu \<and> (\<forall>i<ncpu. freelist k i = 0) \<longrightarrow> kalloc ncpu c k = (0, k)) \<and>
   (lists_ok n s L \<longrightarrow>
      (\<exists>r. bget p d bn s = Some r) \<and>
      (bget p d bn s = Some (Panic ''bget: no buffers'') \<longleftrightarrow>
         find (cached s d bn) (L (unat (bn mod 13))) = None \<and>
         (\<forall>i<NBUCKETS. \<forall>j\<in>set (L i). \<not> unused s j)) \<and>
      (\<forall>m. bget p d bn s = Some (Panic m) \<longrightarrow> m = ''bget: no buffers'') \<and>
      (\<exists>r. bget p d bn s = Some r \<and>
         (r = Panic ''bget: no buffers'' \<or>
          (\<exists>j<n. \<exists>t. yield r = Some (Buffer j) \<and> state_of r = Some t))))"
proof (intro conjI impI)
  assume "c < ncpu \<and> (\<forall>i<ncpu. freelist k i = 0)"
  then show "kalloc ncpu c k = (0, k)" by (simp add: kalloc_exhausted)
next
  assume l: "lists_ok n s L"
  have r: "ring s k (L k)" if "k < NBUCKETS" for k
    using l that by (simp add: lists_ok_def layout_def)
  have eq: "bget p d bn s = Some (acquire_spec L p d bn s)"
    by (rule bget_refines) (rule r)
  show "\<exists>r. bget p d bn s = Some r" using eq by simp
  show "bget p d bn s = Some (Panic ''bget: no buffers'') \<longleftrightarrow>
         find (cached s d bn) (L (unat (bn mod 13))) = None \<and>
         (\<forall>i<NBUCKETS. \<forall>j\<in>set (L i). \<not> unused s j)"
    by (rule bget_panic_iff [OF l])
  show "\<forall>m. bget p d bn s = Some (Panic m) \<longrightarrow> m = ''bget: no buffers''"
    unfolding eq by (cases rule: acquire_spec_cases [of s d bn L p]) simp_all  show "\<exists>r. bget p d bn s = Some r \<and>
         (r = Panic ''bget: no buffers'' \<or>
          (\<exists>j<n. \<exists>t. yield r = Some (Buffer j) \<and> state_of r = Some t))"
    by (rule bget_yields_pool [OF l])
qed

theorem exhaustion_kalloc_returns_bget_panics_witness:
  "kalloc 3 0 kmem0 = (0, kmem0) \<and>
   bget 8 0 1 busy1 = Some (Panic ''bget: no buffers'')"
proof -
  let ?L = "\<lambda>i::nat. if i = 0 then [0::nat] else []"
  have e: "(0::nat) < 3 \<and> (\<forall>i<3. freelist kmem0 i = 0)" by (simp add: kmem0_def)
  note t = exhaustion_kalloc_returns_bget_panics [of 0 3 kmem0 1 busy1 ?L 8 0 1]
  note a = t [THEN conjunct1, rule_format, OF e]
  note b = t [THEN conjunct2, rule_format, OF busy1_ok, THEN conjunct2, THEN conjunct1]
  have "find (cached busy1 0 1) (?L (unat ((1::32 word) mod 13))) = None \<and>
      (\<forall>i<NBUCKETS. \<forall>j\<in>set (?L i). \<not> unused busy1 j)"
    by (simp add: unused_def)
  then have "bget 8 0 1 busy1 = Some (Panic ''bget: no buffers'')"
    unfolding b .
  with a show ?thesis by simp
qed

subsection \<open>Every operation keeps the invariants\<close>

lemma bget_step:
  assumes "lists_ok n s L" "bget p d bn s = Some r" "state_of r = Some t"
  shows "lists_ok n t (acquire_layout L d bn s)"
    and "home_ok s L \<Longrightarrow> home_ok t (acquire_layout L d bn s)"
    and "first_only s L \<Longrightarrow> first_only t (acquire_layout L d bn s)"
proof -
  have k: "ring s k (L k)" if "k < NBUCKETS" for k
    using assms(1) that by (simp add: lists_ok_def layout_def)
  have "bget p d bn s = Some (acquire_spec L p d bn s)"
    by (rule bget_refines) (rule k)
  then have st: "state_of (acquire_spec L p d bn s) = Some t" using assms(2,3) by simp
  show "lists_ok n t (acquire_layout L d bn s)"
    and "home_ok s L \<Longrightarrow> home_ok t (acquire_layout L d bn s)"
    and "first_only s L \<Longrightarrow> first_only t (acquire_layout L d bn s)"
    using acquire_spec_inv [OF assms(1) st] by blast+
qed

lemma bread_cases [consumes 1, case_names same loaded]:
  assumes "bread p d bn s = Some r"
  obtains (same) "bget p d bn s = Some r"
  | (loaded) b s1 where "bget p d bn s = Some (Returns b s1)"
      "r = Returns b (upd b (\<lambda>x. x\<lparr>valid := 1\<rparr>) (virtio_disk_rw b False s1))"
  using assms by (auto simp: bread_def split: option.splits outcome.splits if_splits)

lemma load_quiet:
  fixes s b
  defines "t \<equiv> upd b (\<lambda>x. x\<lparr>valid := 1\<rparr>) (virtio_disk_rw b False s)"
  shows "nx t = nx s" "pv t = pv s" "tag t m = tag s m"
    "refcnt (bufs t x) = refcnt (bufs s x)"
  by (simp_all add: t_def tag_def bufs_virtio_read)

lemma load_inv:
  shows "lists_ok n s L \<Longrightarrow>
      lists_ok n (upd b (\<lambda>x. x\<lparr>valid := 1\<rparr>) (virtio_disk_rw b False s)) L"
    and "home_ok s L \<Longrightarrow> home_ok (upd b (\<lambda>x. x\<lparr>valid := 1\<rparr>) (virtio_disk_rw b False s)) L"
    and "first_only s L \<Longrightarrow>
      first_only (upd b (\<lambda>x. x\<lparr>valid := 1\<rparr>) (virtio_disk_rw b False s)) L"
proof -
  let ?t = "upd b (\<lambda>x. x\<lparr>valid := 1\<rparr>) (virtio_disk_rw b False s)"
  have q: "nx ?t = nx s" "pv ?t = pv s" "\<And>m. tag ?t m = tag s m"
    "\<And>m. 0 < refcnt (bufs ?t (Buffer m)) \<Longrightarrow> 0 < refcnt (bufs s (Buffer m))"
    by (simp_all add: load_quiet del: bufs_upd)
  show "lists_ok n s L \<Longrightarrow> lists_ok n ?t L" by (rule quiet_inv(1) [OF q])
  show "home_ok s L \<Longrightarrow> home_ok ?t L" by (rule quiet_inv(2) [OF q])
  show "first_only s L \<Longrightarrow> first_only ?t L" by (rule quiet_inv(3) [OF q])
qed

lemma bread_step:
  assumes "lists_ok n s L" "bread p d bn s = Some r" "state_of r = Some t"
  shows "lists_ok n t (acquire_layout L d bn s)"
    and "home_ok s L \<Longrightarrow> home_ok t (acquire_layout L d bn s)"
    and "first_only s L \<Longrightarrow> first_only t (acquire_layout L d bn s)"
proof -
  have "lists_ok n t (acquire_layout L d bn s) \<and>
      (home_ok s L \<longrightarrow> home_ok t (acquire_layout L d bn s)) \<and>
      (first_only s L \<longrightarrow> first_only t (acquire_layout L d bn s))"
    using assms(2)
  proof (cases rule: bread_cases)
    case same
    show ?thesis using bget_step [OF assms(1) same assms(3)] by blast
  next
    case (loaded b s1)
    have "state_of (Returns b s1) = Some s1" by simp
    note g = bget_step [OF assms(1) loaded(1) this]
    have t: "t = upd b (\<lambda>x. x\<lparr>valid := 1\<rparr>) (virtio_disk_rw b False s1)"
      using assms(3) loaded(2) by simp
    show ?thesis unfolding t using g load_inv by blast
  qed
  then show "lists_ok n t (acquire_layout L d bn s)"
    and "home_ok s L \<Longrightarrow> home_ok t (acquire_layout L d bn s)"
    and "first_only s L \<Longrightarrow> first_only t (acquire_layout L d bn s)"
    by blast+
qed

lemma bwrite_inv:
  assumes "bwrite p b s = Inr t"
  shows "lists_ok n s L \<Longrightarrow> lists_ok n t L" "home_ok s L \<Longrightarrow> home_ok t L"
    "first_only s L \<Longrightarrow> first_only t L"
proof -
  have b: "bufs t = bufs s" using assms by (auto simp: bwrite_def split: if_splits)
  then have q: "nx t = nx s" "pv t = pv s" "\<And>m. tag t m = tag s m"
    "\<And>m. 0 < refcnt (bufs t (Buffer m)) \<Longrightarrow> 0 < refcnt (bufs s (Buffer m))"
    by (auto simp: nx_def pv_def tag_def)
  show "lists_ok n s L \<Longrightarrow> lists_ok n t L" "home_ok s L \<Longrightarrow> home_ok t L"
    "first_only s L \<Longrightarrow> first_only t L"
    using quiet_inv(1) [OF q] quiet_inv(2) [OF q] quiet_inv(3) [OF q] by blast+
qed

lemma bpin_inv:
  shows "lists_ok n s L \<Longrightarrow> lists_ok n (bpin b s) L" "home_ok s L \<Longrightarrow> home_ok (bpin b s) L"
    and "first_only s L \<Longrightarrow> (\<And>j. b = Buffer j \<Longrightarrow> 0 < refcnt (bufs s (Buffer j))) \<Longrightarrow>
         first_only (bpin b s) L"
proof -
  show "lists_ok n s L \<Longrightarrow> lists_ok n (bpin b s) L"
    by (simp add: bpin_def lists_ok_def layout_upd)
  show "home_ok s L \<Longrightarrow> home_ok (bpin b s) L"
    by (subst home_ok_cong [of "bpin b s" s]) (simp_all add: bpin_def)
  show "first_only (bpin b s) L"
    if "first_only s L" "\<And>j. b = Buffer j \<Longrightarrow> 0 < refcnt (bufs s (Buffer j))"
    using that(1)
  proof (rule first_only_mono)
    show "tag (bpin b s) m = tag s m" for m by (simp add: bpin_def tag_def)
    show "0 < refcnt (bufs s (Buffer m))" if "0 < refcnt (bufs (bpin b s) (Buffer m))" for m
      using that \<open>\<And>j. b = Buffer j \<Longrightarrow> 0 < refcnt (bufs s (Buffer j))\<close>
      by (cases "b = Buffer m") (simp_all add: bpin_def)
  qed
qed

lemma bunpin_inv:
  shows "lists_ok n s L \<Longrightarrow> lists_ok n (bunpin b s) L"
    and "home_ok s L \<Longrightarrow> home_ok (bunpin b s) L"
    and "first_only s L \<Longrightarrow> first_only (bunpin b s) L"
proof -
  show "lists_ok n s L \<Longrightarrow> lists_ok n (bunpin b s) L"
    by (simp add: bunpin_def lists_ok_def layout_upd)
  show "home_ok s L \<Longrightarrow> home_ok (bunpin b s) L"
    by (subst home_ok_cong [of "bunpin b s" s]) (simp_all add: bunpin_def)
  show "first_only (bunpin b s) L" if "first_only s L"
    using that
  proof (rule first_only_mono)
    show "tag (bunpin b s) m = tag s m" for m by (simp add: bunpin_def tag_def)
    show "0 < refcnt (bufs s (Buffer m))" if "0 < refcnt (bufs (bunpin b s) (Buffer m))" for m
      using that by (cases "b = Buffer m") (simp_all add: bunpin_def)
  qed
qed

lemma home_bucket:
  assumes "lists_ok n s L" "home_ok s L" "j < n"
  shows "j \<in> set (L (unat (blockno (bufs s (Buffer j)) mod 13)))"
proof -
  have l: "layout {..<n} s L" using assms(1) by (simp add: lists_ok_def)
  obtain i where i: "i < NBUCKETS" "j \<in> set (L i)" using layoutD(4) [OF l, of j] assms(3) by auto
  then have "unat (blockno (bufs s (Buffer j)) mod 13) = i" using assms(2) by (simp add: home_ok_def)
  then show ?thesis using i by simp
qed

lemma first_only_zeroed: "zeroed s \<Longrightarrow> first_only (binit n s) L"
  by (simp add: first_only_def zeroed_def)

lemma reach_inv:
  assumes "reach strict n s"
  shows "\<exists>L. lists_ok n s L \<and> home_ok s L \<and> (strict \<longrightarrow> first_only s L)"
  using assms
proof (induction rule: reach.induct)
  case (r_init s0)
  have "lists_ok n (binit n s0) (binit_layout s0 n)"
    using binit_layout_ok [of n s0] by (simp add: lists_ok_def)
  then show ?case using home_ok_binit [of n s0] first_only_zeroed [OF r_init] by blast
next
  case (r_bget s p d bn r t)
  then obtain L where L: "lists_ok n s L" "home_ok s L" "strict \<longrightarrow> first_only s L" by blast
  show ?case using bget_step [OF L(1) r_bget(2,3)] L(2,3) by blast
next
  case (r_bread s p d bn r t)
  then obtain L where L: "lists_ok n s L" "home_ok s L" "strict \<longrightarrow> first_only s L" by blast
  show ?case using bread_step [OF L(1) r_bread(2,3)] L(2,3) by blast
next
  case (r_wakeup s j p t)
  then obtain L where L: "lists_ok n s L" "home_ok s L" "strict \<longrightarrow> first_only s L" by blast
  show ?case using acquiresleep_inv [OF r_wakeup(3)] L by blast
next
  case (r_load s j)
  then obtain L where L: "lists_ok n s L" "home_ok s L" "strict \<longrightarrow> first_only s L" by blast
  show ?case using load_inv(1) [OF L(1), of "Buffer j"] load_inv(2) [OF L(2), of "Buffer j"]
      load_inv(3) [of s L "Buffer j"] L(3) by blast
next
  case (r_bwrite s j p t)
  then obtain L where L: "lists_ok n s L" "home_ok s L" "strict \<longrightarrow> first_only s L" by blast
  show ?case using bwrite_inv [OF r_bwrite(3)] L by blast
next
  case (r_brelse s j p t)
  then obtain L where L: "lists_ok n s L" "home_ok s L" "strict \<longrightarrow> first_only s L" by blast
  note h = home_bucket [OF L(1,2) r_brelse(2)]
  show ?case using brelse_inv [OF L(1) h r_brelse(3)] L(2,3) by blast
next
  case (r_bpin s j)
  then obtain L where L: "lists_ok n s L" "home_ok s L" "strict \<longrightarrow> first_only s L" by blast
  have "strict \<longrightarrow> first_only (bpin (Buffer j) s) L"
    using L(3) r_bpin(3) bpin_inv(3) [of s L "Buffer j"] by auto
  then show ?case using bpin_inv(1) [OF L(1), of "Buffer j"] bpin_inv(2) [OF L(2), of "Buffer j"]
    by blast
next
  case (r_bunpin s j)
  then obtain L where L: "lists_ok n s L" "home_ok s L" "strict \<longrightarrow> first_only s L" by blast
  show ?case using bunpin_inv(1) [OF L(1), of "Buffer j"] bunpin_inv(2) [OF L(2), of "Buffer j"]
      bunpin_inv(3) [of s L "Buffer j"] L(3) by blast
qed


text \<open>
  Claim C10. In every state reached from \<^verbatim>\<open>binit\<close> on zeroed memory by any sequence
  of \<^verbatim>\<open>bget\<close>, \<^verbatim>\<open>bread\<close>, \<^verbatim>\<open>bwrite\<close>, \<^verbatim>\<open>brelse\<close>, \<^verbatim>\<open>bpin\<close> and \<^verbatim>\<open>bunpin\<close> on pool
  buffers (with or without the restriction on \<^verbatim>\<open>bpin\<close>), the bucket lists are
  well formed and a pool buffer is in the list of bucket \<open>i\<close> exactly when \<open>i\<close> is
  its block number modulo 13. Right after \<^verbatim>\<open>binit\<close> all buffers are in the list of
  bucket 0. The relocation step of \<^verbatim>\<open>bget\<close> gives the buffer the new block number
  and puts it at the head of the list of that number's bucket.
\<close>

theorem buffers_stay_in_home_bucket:
  "(reach strict n s \<longrightarrow>
      (\<exists>L. lists_ok n s L \<and>
         (\<forall>j<n. \<forall>i<NBUCKETS. j \<in> set (L i) \<longleftrightarrow> i = unat (blockno (bufs s (Buffer j)) mod 13)))) \<and>
   (zeroed s0 \<longrightarrow> lists_ok n (binit n s0) (\<lambda>i. if i = 0 then rev [0..<n] else [])) \<and>
   (lists_ok n s L \<and> find (cached s d bn) (L (unat (bn mod 13))) = None \<and>
    victim s L (unat (bn mod 13)) [0..<NBUCKETS] = Some (k, j) \<longrightarrow>
      blockno (bufs (push_front (Hashbucket (unat (bn mod 13))) (Buffer j)
                      (unlink (Buffer j) (retag d bn (Buffer j) s))) (Buffer j)) = bn \<and>
      lists_ok n (push_front (Hashbucket (unat (bn mod 13))) (Buffer j)
                    (unlink (Buffer j) (retag d bn (Buffer j) s)))
        ((L(k := remove1 j (L k)))(unat (bn mod 13) := j # L (unat (bn mod 13)))))"
proof (intro conjI impI)
  assume "reach strict n s"
  from reach_inv [OF this] obtain L where L: "lists_ok n s L" "home_ok s L" by blast
  have "j \<in> set (L i) \<longleftrightarrow> i = unat (blockno (bufs s (Buffer j)) mod 13)"
    if "j < n" "i < NBUCKETS" for i j
    using home_bucket [OF L that(1)] L(2) that(2) by (auto simp: home_ok_def)
  with L(1) show "\<exists>L. lists_ok n s L \<and>
         (\<forall>j<n. \<forall>i<NBUCKETS. j \<in> set (L i) \<longleftrightarrow> i = unat (blockno (bufs s (Buffer j)) mod 13))"
    by blast
next
  assume "zeroed s0"
  then show "lists_ok n (binit n s0) (\<lambda>i. if i = 0 then rev [0..<n] else [])"
    by (rule lists_ok_binit_zeroed)
next
  assume a: "lists_ok n s L \<and> find (cached s d bn) (L (unat (bn mod 13))) = None \<and>
    victim s L (unat (bn mod 13)) [0..<NBUCKETS] = Some (k, j)"
  show "blockno (bufs (push_front (Hashbucket (unat (bn mod 13))) (Buffer j)
                      (unlink (Buffer j) (retag d bn (Buffer j) s))) (Buffer j)) = bn"
    by (simp add: bufs_retag)
  show "lists_ok n (push_front (Hashbucket (unat (bn mod 13))) (Buffer j)
                    (unlink (Buffer j) (retag d bn (Buffer j) s)))
        ((L(k := remove1 j (L k)))(unat (bn mod 13) := j # L (unat (bn mod 13))))"
    by (rule steal_inv(1) [OF _ refl]) (use a in simp_all)
qed

theorem buffers_stay_in_home_bucket_witness:
  "(\<exists>L. lists_ok 1 busy1 L \<and>
      (\<forall>j<1. \<forall>i<NBUCKETS. j \<in> set (L i) \<longleftrightarrow> i = unat (blockno (bufs busy1 (Buffer j)) mod 13))) \<and>
   lists_ok 2 (binit 2 bio0) (\<lambda>i. if i = 0 then rev [0..<2] else []) \<and>
   lists_ok 2 (push_front (Hashbucket (unat ((5::32 word) mod 13))) (Buffer 0)
                    (unlink (Buffer 0) (retag 0 5 (Buffer 0) (binit 2 bio0))))
        (((\<lambda>i. if i = 0 then [1, 0] else [])(0 := remove1 0 [1, 0]))
           (unat ((5::32 word) mod 13) := [0]))"
proof -
  have r: "reach False 1 busy1"
    by (rule reach.r_bget [OF reach.r_init [OF zeroed_bio0] bget_boot1]) simp
  let ?L = "\<lambda>i::nat. if i = 0 then [1, 0::nat] else []"
  have u: "[0..<NBUCKETS] = 0 # [1..<NBUCKETS]"
    by (simp add: NBUCKETS_def upt_conv_Cons)
  have c3: "lists_ok 2 (binit 2 bio0) ?L \<and>
      find (cached (binit 2 bio0) 0 5) (?L (unat ((5::32 word) mod 13))) = None \<and>
      victim (binit 2 bio0) ?L (unat ((5::32 word) mod 13)) [0..<NBUCKETS] = Some (0, 0)"
    unfolding u using boot2 by (simp add: unused_def)
  note a = buffers_stay_in_home_bucket [of False 1 busy1, THEN conjunct1, rule_format, OF r]
  note b = buffers_stay_in_home_bucket [of _ 2 _ bio0, THEN conjunct2, THEN conjunct1,
      rule_format, OF zeroed_bio0]
  note c = buffers_stay_in_home_bucket [of _ 2 "binit 2 bio0" _ ?L 0 5 0 0, THEN conjunct2,
      THEN conjunct2, rule_format, OF c3, THEN conjunct2]
  show ?thesis using a b c by simp
qed

subsection \<open>Reference counts\<close>

lemma bget_refcnt:
  assumes l: "lists_ok n s L" and g: "bget p d bn s = Some r"
    and st: "state_of r = Some t" and y: "yield r = Some b"
  shows "refcnt (bufs t b) = refcnt (bufs s b) + 1"
    and "x \<noteq> b \<Longrightarrow> refcnt (bufs t x) = refcnt (bufs s x)"
proof -
  have k: "ring s k (L k)" if "k < NBUCKETS" for k
    using l that by (simp add: lists_ok_def layout_def)
  have "bget p d bn s = Some (acquire_spec L p d bn s)"
    by (rule bget_refines) (rule k)
  then have r: "r = acquire_spec L p d bn s" using g by simp
  show "refcnt (bufs t b) = refcnt (bufs s b) + 1"
    by (rule acquire_spec_refcnt(1) [OF st [unfolded r] y [unfolded r]])
  show "refcnt (bufs t x) = refcnt (bufs s x)" if "x \<noteq> b"
    by (rule acquire_spec_refcnt(2) [OF st [unfolded r] y [unfolded r] that])
qed

lemma bread_refcnt:
  assumes l: "lists_ok n s L" and g: "bread p d bn s = Some r"
    and st: "state_of r = Some t" and y: "yield r = Some b"
  shows "refcnt (bufs t x) = (if x = b then refcnt (bufs s b) + 1 else refcnt (bufs s x))"
  using g
proof (cases rule: bread_cases)
  case same
  show ?thesis using bget_refcnt [OF l same st y] by simp
next
  case (loaded c s1)
  have b: "c = b" using y loaded(2) by simp
  have t: "t = upd b (\<lambda>x. x\<lparr>valid := 1\<rparr>) (virtio_disk_rw b False s1)"
    using st loaded(2) b by simp
  have "refcnt (bufs t x) = refcnt (bufs s1 x)" unfolding t by (rule load_quiet(4))
  moreover have "state_of (Returns c s1) = Some s1" "yield (Returns c s1) = Some b"
    using b by simp_all
  note bget_refcnt [OF l loaded(1) this]
  ultimately show ?thesis by simp
qed

lemma bget_returns_holding:
  assumes l: "lists_ok n s L" and g: "bget p d bn s = Some (Returns b t)"
  shows "holdingsleep p b t"
proof -
  have k: "ring s k (L k)" if "k < NBUCKETS" for k
    using l that by (simp add: lists_ok_def layout_def)
  have "bget p d bn s = Some (acquire_spec L p d bn s)"
    by (rule bget_refines) (rule k)
  then have r: "acquire_spec L p d bn s = Returns b t" using g by simp
  have a: "holdingsleep p b t" if "acquiresleep p c u = Returns b t" for c u
    using that by (cases rule: acquiresleep_cases [of u c p]) (auto simp: holdingsleep_def)
  show ?thesis
  proof (cases rule: acquire_spec_cases [of s d bn L p])
    case (hit j)
    show ?thesis by (rule a) (use r hit(2) in simp)
  next
    case (recycle j)
    show ?thesis by (rule a) (use r recycle(3) in simp)
  next
    case (steal k j)
    show ?thesis by (rule a) (use r steal(4) in simp)
  next
    case exhausted
    then show ?thesis using r by simp
  qed
qed

lemma matched_reach: "matched n s h \<Longrightarrow> reach False n s"
proof (induction rule: matched.induct)
  case (m_init s0)
  then show ?case by (rule reach.r_init)
next
  case (m_bget s h p d bn r t j)
  then show ?case by (blast intro: reach.r_bget)
next
  case (m_bread s h p d bn r t j)
  then show ?case by (blast intro: reach.r_bread)
next
  case (m_wakeup s h j p t)
  then show ?case by (blast intro: reach.r_wakeup)
next
  case (m_load s h j)
  then show ?case by (blast intro: reach.r_load)
next
  case (m_bwrite s h j p t)
  then show ?case by (blast intro: reach.r_bwrite)
next
  case (m_brelse s h j p t)
  then show ?case by (blast intro: reach.r_brelse)
next
  case (m_bpin s h j)
  then show ?case by (simp add: reach.r_bpin)
next
  case (m_bunpin s h j)
  then show ?case by (simp add: reach.r_bunpin)
qed

lemma matched_count:
  "matched n s h \<Longrightarrow> refcnt (bufs s (Buffer j)) = int (h j)"
proof (induction arbitrary: j rule: matched.induct)
  case (m_init s0)
  then show ?case by (simp add: zeroed_def)
next
  case (m_bget s h p d bn r t i)
  from reach_inv [OF matched_reach [OF m_bget(1)]] obtain L where l: "lists_ok n s L" by blast
  note f = bget_refcnt [OF l m_bget(2,3,4)]
  show ?case
  proof (cases "j = i")
    case True
    then show ?thesis using f(1) m_bget.IH [of i] by simp
  next
    case False
    then show ?thesis using f(2) [of "Buffer j"] m_bget.IH [of j] by simp
  qed
next
  case (m_bread s h p d bn r t i)
  from reach_inv [OF matched_reach [OF m_bread(1)]] obtain L where l: "lists_ok n s L" by blast
  note f = bread_refcnt [OF l m_bread(2,3,4), of "Buffer j"]
  show ?case using f m_bread.IH [of i] m_bread.IH [of j] by (cases "j = i") simp_all
next
  case (m_wakeup s h i p t)
  show ?case using acquiresleep_fields(1) [OF m_wakeup(3)] m_wakeup.IH by simp
next
  case (m_load s h i)
  show ?case using load_quiet(4) [of "Buffer i" s "Buffer j"] m_load.IH by simp
next
  case (m_bwrite s h i p t)
  have "t = virtio_disk_rw (Buffer i) True s"
    using m_bwrite(3) by (simp add: bwrite_def split: if_splits)
  then show ?case using m_bwrite.IH by (simp add: bufs_virtio_write)
next
  case (m_brelse s h i p t)
  show ?case
    using brelse_fields(1) [OF m_brelse(4), of "Buffer j"] m_brelse.IH [of i] m_brelse.IH [of j]
      m_brelse(3)
    by (cases "j = i") simp_all
next
  case (m_bpin s h i)
  show ?case using m_bpin.IH [of i] m_bpin.IH [of j] by (cases "j = i") (simp_all add: bpin_def)
next
  case (m_bunpin s h i)
  show ?case using m_bunpin.IH [of i] m_bunpin.IH [of j] m_bunpin(3)
    by (cases "j = i") (simp_all add: bunpin_def)
qed

lemma bget_lock_free:
  assumes l: "lists_ok n s L" and g: "bget p d bn s = Some r"
    and st: "state_of r = Some t" and y: "yield r = Some b"
    and f: "lock (bufs s b) = None"
  shows "r = Returns b t"
proof -
  have k: "ring s k (L k)" if "k < NBUCKETS" for k
    using l that by (simp add: lists_ok_def layout_def)
  have "bget p d bn s = Some (acquire_spec L p d bn s)"
    by (rule bget_refines) (rule k)
  then have r: "acquire_spec L p d bn s = r" using g by simp
  have a: "r = Returns b t"
    if "acquiresleep p c u = r" "lock (bufs u c) = lock (bufs s c)" for c u
  proof -
    have "c = b" using that(1) y by auto
    then show ?thesis
      using that f st by (cases rule: acquiresleep_cases [of u c p]) auto
  qed
  show ?thesis
  proof (cases rule: acquire_spec_cases [of s d bn L p])
    case (hit j)
    show ?thesis by (rule a [OF trans [OF hit(2) [symmetric] r]]) simp
  next
    case (recycle j)
    show ?thesis by (rule a [OF trans [OF recycle(3) [symmetric] r]]) (simp add: bufs_retag)
  next
    case (steal k j)
    show ?thesis by (rule a [OF trans [OF steal(4) [symmetric] r]]) (simp add: bufs_retag)
  next
    case exhausted
    then show ?thesis using r st by auto
  qed
qed

text \<open>
  Claim C7. In a state with well-formed bucket lists \<^verbatim>\<open>bget\<close> terminates; either
  it panics, the block not being cached and no buffer having reference count
  zero, or it yields a buffer of the pool whose reference count is one higher
  than before, every other count being as it was. If the content lock of that
  buffer was free, \<^verbatim>\<open>bget\<close> returns it, the \<^verbatim>\<open>brelse\<close> of it by the same process does
  not panic, and after that \<^verbatim>\<open>brelse\<close> every reference count is what it was before
  the \<^verbatim>\<open>bget\<close>; otherwise the caller sleeps, and getting the lock later changes no
  count. A \<^verbatim>\<open>brelse\<close> of \<open>b\<close> returns when the caller holds the lock, and when it
  returns the count of \<open>b\<close> is one lower and every other count is as it was.
  \<^verbatim>\<open>bpin\<close> and \<^verbatim>\<open>bunpin\<close> add and subtract one, leave every other count and every
  content lock as they were, and do so whatever the state of the content lock.
  Under matched usage the reference count of every buffer equals the number of
  its unmatched increments, hence is never negative.
\<close>

theorem refcnt_conservation:
  "(lists_ok n s L \<longrightarrow>
      (\<exists>r. bget p d bn s = Some r \<and>
         (r = Panic ''bget: no buffers'' \<and>
          find (cached s d bn) (L (unat (bn mod 13))) = None \<and>
          (\<forall>i<NBUCKETS. \<forall>j\<in>set (L i). refcnt (bufs s (Buffer j)) \<noteq> 0) \<or>
          (\<exists>j<n. \<exists>t. state_of r = Some t \<and> yield r = Some (Buffer j) \<and>
             refcnt (bufs t (Buffer j)) = refcnt (bufs s (Buffer j)) + 1 \<and>
             (\<forall>x. x \<noteq> Buffer j \<longrightarrow> refcnt (bufs t x) = refcnt (bufs s x)) \<and>
             (lock (bufs s (Buffer j)) \<noteq> None \<longrightarrow> r = Sleeps (Buffer j) t) \<and>
             (lock (bufs s (Buffer j)) = None \<longrightarrow>
                r = Returns (Buffer j) t \<and>
                (\<exists>v. brelse p (Buffer j) t = Inr v \<and>
                     (\<forall>x. refcnt (bufs v x) = refcnt (bufs s x)))))))) \<and>
   (\<forall>t x. state_of (acquiresleep p b s) = Some t \<longrightarrow> refcnt (bufs t x) = refcnt (bufs s x)) \<and>
   (holdingsleep p b s \<longrightarrow> (\<exists>u. brelse p b s = Inr u)) \<and>
   (\<forall>u. brelse p b s = Inr u \<longrightarrow>
      refcnt (bufs u b) = refcnt (bufs s b) - 1 \<and>
      (\<forall>x. x \<noteq> b \<longrightarrow> refcnt (bufs u x) = refcnt (bufs s x))) \<and>
   (refcnt (bufs (bpin b s) b) = refcnt (bufs s b) + 1 \<and>
    refcnt (bufs (bunpin b s) b) = refcnt (bufs s b) - 1 \<and>
    (\<forall>x. x \<noteq> b \<longrightarrow> refcnt (bufs (bpin b s) x) = refcnt (bufs s x) \<and>
                   refcnt (bufs (bunpin b s) x) = refcnt (bufs s x)) \<and>
    (\<forall>x. lock (bufs (bpin b s) x) = lock (bufs s x) \<and>
         lock (bufs (bunpin b s) x) = lock (bufs s x))) \<and>
   (matched n s h \<longrightarrow>
      refcnt (bufs s (Buffer j)) = int (h j) \<and> 0 \<le> refcnt (bufs s (Buffer j)))"
proof -
  have 1: "lists_ok n s L \<longrightarrow>
      (\<exists>r. bget p d bn s = Some r \<and>
         (r = Panic ''bget: no buffers'' \<and>
          find (cached s d bn) (L (unat (bn mod 13))) = None \<and>
          (\<forall>i<NBUCKETS. \<forall>j\<in>set (L i). refcnt (bufs s (Buffer j)) \<noteq> 0) \<or>
          (\<exists>j<n. \<exists>t. state_of r = Some t \<and> yield r = Some (Buffer j) \<and>
             refcnt (bufs t (Buffer j)) = refcnt (bufs s (Buffer j)) + 1 \<and>
             (\<forall>x. x \<noteq> Buffer j \<longrightarrow> refcnt (bufs t x) = refcnt (bufs s x)) \<and>
             (lock (bufs s (Buffer j)) \<noteq> None \<longrightarrow> r = Sleeps (Buffer j) t) \<and>
             (lock (bufs s (Buffer j)) = None \<longrightarrow>
                r = Returns (Buffer j) t \<and>
                (\<exists>v. brelse p (Buffer j) t = Inr v \<and>
                     (\<forall>x. refcnt (bufs v x) = refcnt (bufs s x)))))))"
  proof
    assume l: "lists_ok n s L"
    from bget_yields_pool [OF l, of p d bn] obtain r where
      g: "bget p d bn s = Some r" and
      c: "r = Panic ''bget: no buffers'' \<or>
          (\<exists>j<n. \<exists>t. yield r = Some (Buffer j) \<and> state_of r = Some t)"
      by blast
    from c show "\<exists>r. bget p d bn s = Some r \<and>
         (r = Panic ''bget: no buffers'' \<and>
          find (cached s d bn) (L (unat (bn mod 13))) = None \<and>
          (\<forall>i<NBUCKETS. \<forall>j\<in>set (L i). refcnt (bufs s (Buffer j)) \<noteq> 0) \<or>
          (\<exists>j<n. \<exists>t. state_of r = Some t \<and> yield r = Some (Buffer j) \<and>
             refcnt (bufs t (Buffer j)) = refcnt (bufs s (Buffer j)) + 1 \<and>
             (\<forall>x. x \<noteq> Buffer j \<longrightarrow> refcnt (bufs t x) = refcnt (bufs s x)) \<and>
             (lock (bufs s (Buffer j)) \<noteq> None \<longrightarrow> r = Sleeps (Buffer j) t) \<and>
             (lock (bufs s (Buffer j)) = None \<longrightarrow>
                r = Returns (Buffer j) t \<and>
                (\<exists>v. brelse p (Buffer j) t = Inr v \<and>
                     (\<forall>x. refcnt (bufs v x) = refcnt (bufs s x))))))"
    proof
      assume pn: "r = Panic ''bget: no buffers''"
      have "find (cached s d bn) (L (unat (bn mod 13))) = None \<and>
          (\<forall>i<NBUCKETS. \<forall>j\<in>set (L i). \<not> unused s j)"
        using bget_panic_iff [OF l, of p d bn] g pn by simp
      then have "find (cached s d bn) (L (unat (bn mod 13))) = None \<and>
          (\<forall>i<NBUCKETS. \<forall>j\<in>set (L i). refcnt (bufs s (Buffer j)) \<noteq> 0)"
        by (simp add: unused_def)
      then show ?thesis using g pn by (intro exI [of _ r]) simp
    next
      assume "\<exists>j<n. \<exists>t. yield r = Some (Buffer j) \<and> state_of r = Some t"
      then obtain j t where j: "j < n" and y: "yield r = Some (Buffer j)"
        and st: "state_of r = Some t" by blast
      note f = bget_refcnt [OF l g st y]
      have sl: "r = Sleeps (Buffer j) t" if "lock (bufs s (Buffer j)) \<noteq> None"
      proof (cases r)
        case (Panic m)
        then show ?thesis using st by simp
      next
        case (Sleeps c u)
        then show ?thesis using st y by simp
      next
        case (Returns c u)
        then have e: "c = Buffer j" "u = t" using st y by simp_all
        have "holdingsleep p (Buffer j) t"
          by (rule bget_returns_holding [OF l]) (use g Returns e in simp)
        have k: "ring s k (L k)" if "k < NBUCKETS" for k
          using l that by (simp add: lists_ok_def layout_def)
        have "bget p d bn s = Some (acquire_spec L p d bn s)"
          by (rule bget_refines) (rule k)
        then have r: "acquire_spec L p d bn s = Returns (Buffer j) t"
          using g Returns e by simp
        have n: "False" if "acquiresleep p (Buffer i) u = Returns (Buffer j) t"
          "lock (bufs u (Buffer i)) = lock (bufs s (Buffer i))" for i u
        proof -
          have "i = j" using that(1) acquiresleep_yield [of p "Buffer i" u] by simp
          then show False
            using that \<open>lock (bufs s (Buffer j)) \<noteq> None\<close>
            by (cases rule: acquiresleep_cases [of u "Buffer i" p]) auto
        qed
        show ?thesis
        proof (cases rule: acquire_spec_cases [of s d bn L p])
          case (hit i)
          show ?thesis by (rule FalseE, rule n [OF trans [OF hit(2) [symmetric] r]]) simp
        next
          case (recycle i)
          show ?thesis
            by (rule FalseE, rule n [OF trans [OF recycle(3) [symmetric] r]]) (simp add: bufs_retag)
        next
          case (steal k i)
          show ?thesis
            by (rule FalseE, rule n [OF trans [OF steal(4) [symmetric] r]]) (simp add: bufs_retag)
        next
          case exhausted
          then show ?thesis using r by simp
        qed
      qed
      have fr: "r = Returns (Buffer j) t \<and>
          (\<exists>v. brelse p (Buffer j) t = Inr v \<and> (\<forall>x. refcnt (bufs v x) = refcnt (bufs s x)))"
        if lf: "lock (bufs s (Buffer j)) = None"
      proof -
        have rr: "r = Returns (Buffer j) t" by (rule bget_lock_free [OF l g st y lf])
        have "holdingsleep p (Buffer j) t"
          by (rule bget_returns_holding [OF l]) (use g rr in simp)
        then obtain v where v: "brelse p (Buffer j) t = Inr v" using brelse_holding by blast
        have "refcnt (bufs v x) = refcnt (bufs s x)" for x
          using brelse_fields(1) [OF v, of x] f(1) f(2) [of x] by (cases "x = Buffer j") simp_all
        then show ?thesis using rr v by simp
      qed
      have "state_of r = Some t \<and> yield r = Some (Buffer j) \<and>
             refcnt (bufs t (Buffer j)) = refcnt (bufs s (Buffer j)) + 1 \<and>
             (\<forall>x. x \<noteq> Buffer j \<longrightarrow> refcnt (bufs t x) = refcnt (bufs s x)) \<and>
             (lock (bufs s (Buffer j)) \<noteq> None \<longrightarrow> r = Sleeps (Buffer j) t) \<and>
             (lock (bufs s (Buffer j)) = None \<longrightarrow>
                r = Returns (Buffer j) t \<and>
                (\<exists>v. brelse p (Buffer j) t = Inr v \<and>
                     (\<forall>x. refcnt (bufs v x) = refcnt (bufs s x))))"
        using st y f sl fr by simp
      then have "\<exists>j<n. \<exists>t. state_of r = Some t \<and> yield r = Some (Buffer j) \<and>
             refcnt (bufs t (Buffer j)) = refcnt (bufs s (Buffer j)) + 1 \<and>
             (\<forall>x. x \<noteq> Buffer j \<longrightarrow> refcnt (bufs t x) = refcnt (bufs s x)) \<and>
             (lock (bufs s (Buffer j)) \<noteq> None \<longrightarrow> r = Sleeps (Buffer j) t) \<and>
             (lock (bufs s (Buffer j)) = None \<longrightarrow>
                r = Returns (Buffer j) t \<and>
                (\<exists>v. brelse p (Buffer j) t = Inr v \<and>
                     (\<forall>x. refcnt (bufs v x) = refcnt (bufs s x))))"
        using j by (intro exI [of _ j] conjI [of "j < n"] exI [of _ t]) assumption+
      then show ?thesis by (intro exI [of _ r] conjI disjI2) (rule g, assumption)
    qed
  qed
  have 2: "\<forall>t x. state_of (acquiresleep p b s) = Some t \<longrightarrow>
      refcnt (bufs t x) = refcnt (bufs s x)"
    using acquiresleep_fields(1) by blast
  have 3: "holdingsleep p b s \<longrightarrow> (\<exists>u. brelse p b s = Inr u)"
    using brelse_holding by blast
  have 4: "\<forall>u. brelse p b s = Inr u \<longrightarrow>
      refcnt (bufs u b) = refcnt (bufs s b) - 1 \<and>
      (\<forall>x. x \<noteq> b \<longrightarrow> refcnt (bufs u x) = refcnt (bufs s x))"
  proof (intro impI conjI allI)
    fix u assume a: "brelse p b s = Inr u"
    show "refcnt (bufs u b) = refcnt (bufs s b) - 1"
      using brelse_fields(1) [OF a, of b] by simp
    show "refcnt (bufs u x) = refcnt (bufs s x)" if "x \<noteq> b" for x
      using brelse_fields(1) [OF a, of x] that by simp
  qed
  have 5: "refcnt (bufs (bpin b s) b) = refcnt (bufs s b) + 1 \<and>
    refcnt (bufs (bunpin b s) b) = refcnt (bufs s b) - 1 \<and>
    (\<forall>x. x \<noteq> b \<longrightarrow> refcnt (bufs (bpin b s) x) = refcnt (bufs s x) \<and>
                   refcnt (bufs (bunpin b s) x) = refcnt (bufs s x)) \<and>
    (\<forall>x. lock (bufs (bpin b s) x) = lock (bufs s x) \<and>
         lock (bufs (bunpin b s) x) = lock (bufs s x))"
    by (simp add: bpin_def bunpin_def)
  have 6: "matched n s h \<longrightarrow>
      refcnt (bufs s (Buffer j)) = int (h j) \<and> 0 \<le> refcnt (bufs s (Buffer j))"
    using matched_count [of n s h j] by simp
  show ?thesis by (rule conjI [OF 1 conjI [OF 2 conjI [OF 3 conjI [OF 4 conjI [OF 5 6]]]]])
qed

theorem refcnt_conservation_witness:
  "\<exists>t v. bget 7 0 0 (binit 2 bio0) = Some (Returns (Buffer 1) t) \<and>
      refcnt (bufs (binit 2 bio0) (Buffer 1)) = 0 \<and>
      refcnt (bufs t (Buffer 1)) = 1 \<and> refcnt (bufs t (Buffer 0)) = 0 \<and>
      matched 2 t ((\<lambda>j. 0)(1 := Suc 0)) \<and>
      brelse 7 (Buffer 1) t = Inr v \<and>
      refcnt (bufs v (Buffer 1)) = 0 \<and> refcnt (bufs v (Buffer 0)) = 0 \<and>
      matched 2 v (\<lambda>j. 0)"
proof -
  let ?s = "binit 2 bio0"
  let ?L = "\<lambda>i::nat. if i = 0 then [1, 0::nat] else []"
  let ?t = "upd (Buffer 1) (\<lambda>x. x\<lparr>lock := Some 7\<rparr>)
              (upd (Buffer 1) (\<lambda>x. x\<lparr>refcnt := refcnt x + 1\<rparr>) ?s)"
  have k: "ring ?s k (?L k)" if "k < NBUCKETS" for k
    using boot2 that by (simp add: lists_ok_def layout_def)
  have "bget 7 0 0 ?s = Some (acquire_spec ?L 7 0 0 ?s)"
    by (rule bget_refines) (rule k)
  then have g: "bget 7 0 0 ?s = Some (Returns (Buffer 1) ?t)"
    by (simp add: acquire_spec_def cached_def acquiresleep_def lock_binit)
  note T = refcnt_conservation [of 2 ?s ?L 7 0 0]
  from T [THEN conjunct1, rule_format, OF boot2] g
  have "\<exists>j<2. \<exists>t. state_of (Returns (Buffer 1) ?t) = Some t \<and>
      yield (Returns (Buffer 1) ?t) = Some (Buffer j) \<and>
      refcnt (bufs t (Buffer j)) = refcnt (bufs ?s (Buffer j)) + 1 \<and>
      (\<forall>x. x \<noteq> Buffer j \<longrightarrow> refcnt (bufs t x) = refcnt (bufs ?s x)) \<and>
      (lock (bufs ?s (Buffer j)) \<noteq> None \<longrightarrow> Returns (Buffer 1) ?t = Sleeps (Buffer j) t) \<and>
      (lock (bufs ?s (Buffer j)) = None \<longrightarrow>
         Returns (Buffer 1) ?t = Returns (Buffer j) t \<and>
         (\<exists>v. brelse 7 (Buffer j) t = Inr v \<and> (\<forall>x. refcnt (bufs v x) = refcnt (bufs ?s x))))"
    by auto
  then have a: "refcnt (bufs ?t (Buffer 1)) = refcnt (bufs ?s (Buffer 1)) + 1"
    "\<forall>x. x \<noteq> Buffer 1 \<longrightarrow> refcnt (bufs ?t x) = refcnt (bufs ?s x)"
    "lock (bufs ?s (Buffer 1)) = None \<longrightarrow>
       (\<exists>v. brelse 7 (Buffer 1) ?t = Inr v \<and> (\<forall>x. refcnt (bufs v x) = refcnt (bufs ?s x)))"
    by auto
  have lf: "lock (bufs ?s (Buffer 1)) = None" by (simp add: lock_binit)
  from a(3) lf obtain v where v: "brelse 7 (Buffer 1) ?t = Inr v"
    "\<forall>x. refcnt (bufs v x) = refcnt (bufs ?s x)" by blast
  have m0: "matched 2 ?s (\<lambda>j. 0)" by (rule matched.m_init [OF zeroed_bio0])
  have m1: "matched 2 ?t ((\<lambda>j. 0)(1 := Suc ((\<lambda>j. 0) 1)))"
    by (rule matched.m_bget [OF m0 g]) simp_all
  then have m1': "matched 2 ?t ((\<lambda>j. 0)(1 := Suc 0))" by simp
  have q: "((\<lambda>j. 0)(1 := Suc 0))(1 := ((\<lambda>j. 0)(1 := Suc 0)) 1 - 1) = (\<lambda>j::nat. 0::nat)"
    by (rule ext) simp
  have m2: "matched 2 v (\<lambda>j. 0)"
    using matched.m_brelse [OF m1' _ _ v(1)] unfolding q by simp
  have z: "refcnt (bufs ?s (Buffer 1)) = 0" "refcnt (bufs ?s (Buffer 0)) = 0" by simp_all
  have c: "refcnt (bufs ?t (Buffer 1)) = 1" "refcnt (bufs ?t (Buffer 0)) = 0"
    using a(1) a(2) [rule_format, of "Buffer 0"] z by simp_all
  have e: "refcnt (bufs v (Buffer 1)) = 0" "refcnt (bufs v (Buffer 0)) = 0"
    using v(2) z by simp_all
  show ?thesis
    by (intro exI [of _ ?t] exI [of _ v] conjI) (rule g z(1) c m1' v(1) e m2)+
qed

subsection \<open>Uniqueness of referenced tags\<close>









end
